theory Spec2Isabelle
  imports Complex_Main "HOL-Library.AList"
begin

section \<open>Data model\<close>

text \<open>
  A shallow embedding of \<^verbatim>\<open>penaltymodel/classes/binary_quadratic_model.py\<close>.

  \<^item> A variable is any hashable Python value; the labels used by the source, its
    doctests and its tests are integers and strings, and the in-place relabelling
    generates integer labels from a counter, so a label is an integer or a string.
  \<^item> A bias (and the offset) is an exact number, an integer or a fraction, as a
    rational. The operations modelled here store, move and compare biases, and
    \<^verbatim>\<open>energy\<close> adds and multiplies them in their own arithmetic. Floating-point
    biases, and the operations that multiply by a float literal, are not represented.
  \<^item> A Python \<^verbatim>\<open>dict\<close> is an association list in iteration (insertion) order
    whose keys are distinct. \<^verbatim>\<open>d[k] = v\<close> overwrites in place or appends as
    \<^const>\<open>AList.update\<close> does, \<^verbatim>\<open>del d[k]\<close> removes the entry, and a lookup
    of a missing key raises \<^verbatim>\<open>KeyError\<close>. Two dicts are \<^verbatim>\<open>==\<close> when they
    hold the same items, whatever the order.
  \<^item> Every exception is a value: functions that can raise return \<open>error + 'a\<close>.
\<close>

datatype label = IntL int | StrL string

datatype vartype = SPIN | BINARY

datatype error = TypeError | ValueError | KeyError | RuntimeError

type_synonym ('k, 'v) dict = "('k \<times> 'v) list"

type_synonym bias = rat

record bqm =
  linear :: "(label, bias) dict"
  quadratic :: "(label \<times> label, bias) dict"
  offset :: bias
  vartype :: vartype
  adj :: "(label, (label, bias) dict) dict"

subsection \<open>Dictionary operations\<close>

definition has_key :: "('k, 'v) dict \<Rightarrow> 'k \<Rightarrow> bool" where
  "has_key d k = (k \<in> fst ` set d)"

definition getitem :: "('k, 'v) dict \<Rightarrow> 'k \<Rightarrow> error + 'v" where
  "getitem d k = (case map_of d k of None \<Rightarrow> Inl KeyError | Some v \<Rightarrow> Inr v)"

definition setitem :: "('k, 'v) dict \<Rightarrow> 'k \<Rightarrow> 'v \<Rightarrow> ('k, 'v) dict" where
  "setitem d k v = AList.update k v d"

definition delitem :: "('k, 'v) dict \<Rightarrow> 'k \<Rightarrow> error + ('k, 'v) dict" where
  "delitem d k = (if has_key d k then Inr (AList.delete k d) else Inl KeyError)"

text \<open>A dict display or comprehension: the items are stored one after the other.\<close>

definition dict_of_items :: "('k \<times> 'v) list \<Rightarrow> ('k, 'v) dict" where
  "dict_of_items xs = fold (\<lambda>(k, v) d. setitem d k v) xs []"

text \<open>\<^verbatim>\<open>d1 == d2\<close> on dicts of numbers, and on dicts of dicts of numbers.\<close>

definition dict_eq :: "('k, 'v) dict \<Rightarrow> ('k, 'v) dict \<Rightarrow> bool" where
  "dict_eq d1 d2 =
     (length d1 = length d2 \<and> list_all (\<lambda>(k, v). map_of d2 k = Some v) d1)"

definition adj_eq ::
  "('k, ('j, 'v) dict) dict \<Rightarrow> ('k, ('j, 'v) dict) dict \<Rightarrow> bool" where
  "adj_eq a1 a2 =
     (length a1 = length a2 \<and>
      list_all (\<lambda>(k, d). case map_of a2 k of None \<Rightarrow> False | Some d' \<Rightarrow> dict_eq d d') a1)"

subsection \<open>The Vartype enumeration\<close>

text \<open>
  Modelled from the spec: the enumeration \<^verbatim>\<open>Vartype\<close> of
  \<^verbatim>\<open>penaltymodel.classes.vartypes\<close>, which the source imports. It has exactly the
  two members SPIN, whose value is the set \<open>{-1, 1}\<close>, and BINARY, whose value is the set
  \<open>{0, 1}\<close>. A token handed to the constructor is a member, a string (looked up by
  name, \<^verbatim>\<open>Vartype[name]\<close>), a set of integers (looked up by value,
  \<^verbatim>\<open>Vartype(value)\<close>) or an integer (looked up by value as well).
\<close>

datatype vartype_token =
  Member vartype | Name string | ValueSet "int list" | Number int

definition Vartype_by_name :: "string \<Rightarrow> error + vartype" where
  "Vartype_by_name s =
     (if s = ''SPIN'' then Inr SPIN
      else if s = ''BINARY'' then Inr BINARY
      else Inl KeyError)"

fun Vartype_by_value :: "vartype_token \<Rightarrow> error + vartype" where
  "Vartype_by_value (Member vt) = Inr vt"
| "Vartype_by_value (ValueSet xs) =
     (if set xs = {-1, 1} then Inr SPIN
      else if set xs = {0, 1} then Inr BINARY
      else Inl ValueError)"
| "Vartype_by_value _ = Inl ValueError"

text \<open>
  Lines 118--128 and 446--456: a string is looked up by name, anything else by value;
  a \<^verbatim>\<open>ValueError\<close> or \<^verbatim>\<open>KeyError\<close> becomes a \<^verbatim>\<open>TypeError\<close>.
\<close>

definition normalize_vartype :: "vartype_token \<Rightarrow> error + vartype" where
  "normalize_vartype tok =
     (case (case tok of Name s \<Rightarrow> Vartype_by_name s | _ \<Rightarrow> Vartype_by_value tok) of
        Inl ValueError \<Rightarrow> Inl TypeError
      | Inl KeyError \<Rightarrow> Inl TypeError
      | Inl e \<Rightarrow> Inl e
      | Inr vt \<Rightarrow> if \<not> (vt = SPIN \<or> vt = BINARY) then Inl TypeError else Inr vt)"

section \<open>Construction\<close>

text \<open>
  A key of the \<^verbatim>\<open>quadratic\<close> argument is whatever the caller put there: a tuple of
  labels of any length, or a value that cannot be unpacked at all (an integer).
  \<^verbatim>\<open>for u, v in quadratic\<close> unpacks each key: a tuple of two labels yields them,
  a tuple of another length raises \<^verbatim>\<open>ValueError\<close>, an integer raises
  \<^verbatim>\<open>TypeError\<close>. (A string key, which Python would unpack character by character,
  is not represented.)
\<close>

datatype qkey = Tuple "label list" | Scalar int

fun unpack :: "qkey \<Rightarrow> error + (label \<times> label)" where
  "unpack (Tuple [u, v]) = Inr (u, v)"
| "unpack (Tuple _) = Inl ValueError"
| "unpack (Scalar _) = Inl TypeError"

text \<open>
  Line 146, \<^verbatim>\<open>all(u in linear and v in linear for u, v in quadratic)\<close>: the keys
  are unpacked in order and the first failing membership test ends the traversal.
  The unpacked pairs are returned along with the verdict, for the second traversal of
  line 155.
\<close>

fun all_in_linear ::
  "(label, bias) dict \<Rightarrow> (qkey, bias) dict \<Rightarrow> error + (bool \<times> (label \<times> label, bias) dict)" where
  "all_in_linear l [] = Inr (True, [])"
| "all_in_linear l ((k, b) # q) =
     (case unpack k of
        Inl e \<Rightarrow> Inl e
      | Inr (u, v) \<Rightarrow>
          if has_key l u \<and> has_key l v then
            (case all_in_linear l q of
               Inl e \<Rightarrow> Inl e
             | Inr (ok, ps) \<Rightarrow> Inr (ok, ((u, v), b) # ps))
          else Inr (False, []))"

text \<open>Lines 145--149: the \<^verbatim>\<open>try\<close> block re-raises a \<^verbatim>\<open>ValueError\<close> and lets
  any other exception through.\<close>

definition check_quadratic ::
  "(label, bias) dict \<Rightarrow> (qkey, bias) dict \<Rightarrow> error + (label \<times> label, bias) dict" where
  "check_quadratic l q =
     (case all_in_linear l q of
        Inl ValueError \<Rightarrow> Inl ValueError
      | Inl e \<Rightarrow> Inl e
      | Inr (ok, ps) \<Rightarrow> if \<not> ok then Inl ValueError else Inr ps)"

text \<open>Lines 154--169: the adjacency, one edge at a time.\<close>

fun build_adj ::
  "(label, (label, bias) dict) dict \<Rightarrow> (label \<times> label, bias) dict \<Rightarrow>
   error + (label, (label, bias) dict) dict" where
  "build_adj a [] = Inr a"
| "build_adj a (((u, v), b) # q) =
     (if u = v then Inl ValueError
      else case getitem a u of
        Inl e \<Rightarrow> Inl e
      | Inr au \<Rightarrow>
          if has_key au v then Inl ValueError
          else let a1 = setitem a u (setitem au v b) in
            (case getitem a1 v of
               Inl e \<Rightarrow> Inl e
             | Inr av \<Rightarrow>
                 if has_key av u then Inl ValueError
                 else build_adj (setitem a1 v (setitem av u b)) q))"

definition empty_adj :: "(label, bias) dict \<Rightarrow> (label, (label, bias) dict) dict" where
  "empty_adj l = dict_of_items (map (\<lambda>(v, b). (v, [])) l)"

text \<open>\<^verbatim>\<open>__init__\<close>, lines 116--172.\<close>

definition BinaryQuadraticModel ::
  "(label, bias) dict \<Rightarrow> (qkey, bias) dict \<Rightarrow> bias \<Rightarrow> vartype_token \<Rightarrow> error + bqm" where
  "BinaryQuadraticModel l q off tok =
     (case normalize_vartype tok of
        Inl e \<Rightarrow> Inl e
      | Inr vt \<Rightarrow>
          (case check_quadratic l q of
             Inl e \<Rightarrow> Inl e
           | Inr ps \<Rightarrow>
               (case build_adj (empty_adj l) ps of
                  Inl e \<Rightarrow> Inl e
                | Inr a \<Rightarrow>
                    Inr \<lparr>linear = l, quadratic = ps, offset = off, vartype = vt, adj = a\<rparr>)))"

text \<open>The quadratic dict of a model, as the argument a caller inside the class passes.\<close>

definition tuple_keys :: "(label \<times> label, bias) dict \<Rightarrow> (qkey, bias) dict" where
  "tuple_keys q = map (\<lambda>((u, v), b). (Tuple [u, v], b)) q"

text \<open>\<^verbatim>\<open>__eq__\<close>, lines 177--188, on two models.\<close>

definition bqm_eq :: "bqm \<Rightarrow> bqm \<Rightarrow> bool" where
  "bqm_eq m1 m2 =
     (if vartype m1 = vartype m2 then
        dict_eq (linear m1) (linear m2) \<and> adj_eq (adj m1) (adj m2) \<and> offset m1 = offset m2
      else False)"

section \<open>Energy\<close>

text \<open>
  Python's \<^verbatim>\<open>sum\<close> over a generator: the terms are computed in order and added to
  an accumulator that starts at 0; a term that raises ends the sum.
\<close>

fun py_sum :: "('a \<Rightarrow> error + bias) \<Rightarrow> 'a list \<Rightarrow> bias \<Rightarrow> error + bias" where
  "py_sum term [] acc = Inr acc"
| "py_sum term (x # xs) acc =
     (case term x of Inl e \<Rightarrow> Inl e | Inr t \<Rightarrow> py_sum term xs (acc + t))"

definition linear_term ::
  "(label, bias) dict \<Rightarrow> (label, bias) dict \<Rightarrow> label \<Rightarrow> error + bias" where
  "linear_term l sample v =
     (case getitem l v of
        Inl e \<Rightarrow> Inl e
      | Inr b \<Rightarrow> (case getitem sample v of Inl e \<Rightarrow> Inl e | Inr x \<Rightarrow> Inr (b * x)))"

definition quadratic_term ::
  "(label \<times> label, bias) dict \<Rightarrow> (label, bias) dict \<Rightarrow> label \<times> label \<Rightarrow> error + bias" where
  "quadratic_term q sample e =
     (case getitem q e of
        Inl err \<Rightarrow> Inl err
      | Inr b \<Rightarrow>
          (case getitem sample (fst e) of
             Inl err \<Rightarrow> Inl err
           | Inr x \<Rightarrow>
               (case getitem sample (snd e) of
                  Inl err \<Rightarrow> Inl err
                | Inr y \<Rightarrow> Inr (b * x * y))))"

text \<open>\<^verbatim>\<open>energy\<close>, lines 288--294. The sample is a dict from variables to values.\<close>

definition energy :: "bqm \<Rightarrow> (label, bias) dict \<Rightarrow> error + bias" where
  "energy m sample =
     (case py_sum (linear_term (linear m) sample) (map fst (linear m)) 0 of
        Inl e \<Rightarrow> Inl e
      | Inr s1 \<Rightarrow>
          (case py_sum (quadratic_term (quadratic m) sample) (map fst (quadratic m)) 0 of
             Inl e \<Rightarrow> Inl e
           | Inr s2 \<Rightarrow> Inr (offset m + s1 + s2)))"

section \<open>Copy and export\<close>

text \<open>\<^verbatim>\<open>copy\<close>, line 430.\<close>

definition copy :: "bqm \<Rightarrow> error + bqm" where
  "copy m =
     BinaryQuadraticModel (linear m) (tuple_keys (quadratic m)) (offset m) (Member (vartype m))"

text \<open>
  \<^verbatim>\<open>_spin_to_binary\<close> and \<^verbatim>\<open>_binary_to_spin\<close> (lines 471--520) multiply every
  bias by one of the float literals \<^verbatim>\<open>2.\<close>, \<^verbatim>\<open>4.\<close>, \<^verbatim>\<open>.5\<close>,
  \<^verbatim>\<open>.25\<close> and accumulate from \<^verbatim>\<open>0.0\<close>: whatever the type of the biases, they
  compute in IEEE double arithmetic, with its rounding, overflow and type errors. That
  arithmetic is not represented here, so the two conversions, \<^verbatim>\<open>change_vartype\<close> and
  \<^verbatim>\<open>as_ising\<close> are left out, and \<^verbatim>\<open>as_qubo\<close> takes the conversion as its
  first argument: \<open>spin_to_binary m\<close> stands for whatever
  \<^verbatim>\<open>self._spin_to_binary()\<close> returns or raises on the model \<open>m\<close>.
\<close>

text \<open>\<^verbatim>\<open>as_qubo\<close>, lines 222--251.\<close>

definition as_qubo ::
  "(bqm \<Rightarrow> error + ((label, bias) dict \<times> (label \<times> label, bias) dict \<times> bias)) \<Rightarrow> bqm \<Rightarrow>
   error + ((label \<times> label, bias) dict \<times> bias)" where
  "as_qubo spin_to_binary m =
     (if vartype m = BINARY then
        Inr (fold (\<lambda>(e, b) qubo. setitem qubo e b) (quadratic m)
               (fold (\<lambda>(v, b) qubo. setitem qubo (v, v) b) (linear m) []),
             offset m)
      else if vartype m \<noteq> SPIN then Inl RuntimeError
      else
        (case spin_to_binary m of
           Inl e \<Rightarrow> Inl e
         | Inr (l, q, off) \<Rightarrow>
             Inr (fold (\<lambda>(k, b) d. setitem d k b)
                    (dict_of_items (map (\<lambda>(v, b). ((v, v), b)) l)) q,
                  off)))"

section \<open>Invariants\<close>

text \<open>
  A model is valid when its three structures are dicts (distinct keys), every quadratic
  key joins two different variables of \<open>linear\<close> and occurs in one orientation only,
  and the adjacency has one neighbour dict per variable and is the symmetric expansion
  of \<open>quadratic\<close>: \<open>adj[u][v]\<close> exists exactly when \<open>(u, v)\<close> or \<open>(v, u)\<close> is a
  quadratic key, and holds that key's bias.
\<close>

definition dict_ok :: "('k, 'v) dict \<Rightarrow> bool" where
  "dict_ok d = distinct (map fst d)"

definition nbr :: "('k, ('j, 'v) dict) dict \<Rightarrow> 'k \<Rightarrow> 'j \<Rightarrow> 'v option" where
  "nbr a u v = (case map_of a u of None \<Rightarrow> None | Some d \<Rightarrow> map_of d v)"

definition sym_lookup :: "('k \<times> 'k, 'v) dict \<Rightarrow> 'k \<Rightarrow> 'k \<Rightarrow> 'v option" where
  "sym_lookup q u v = (case map_of q (u, v) of None \<Rightarrow> map_of q (v, u) | Some b \<Rightarrow> Some b)"

definition quadratic_ok :: "(label, bias) dict \<Rightarrow> (label \<times> label, bias) dict \<Rightarrow> bool" where
  "quadratic_ok l q =
     (dict_ok q \<and>
      (\<forall>u v. has_key q (u, v) \<longrightarrow>
         has_key l u \<and> has_key l v \<and> u \<noteq> v \<and> \<not> has_key q (v, u)))"

definition adj_ok ::
  "(label, bias) dict \<Rightarrow> (label \<times> label, bias) dict \<Rightarrow> (label, (label, bias) dict) dict \<Rightarrow> bool" where
  "adj_ok l q a =
     (dict_ok a \<and> (\<forall>d\<in>snd ` set a. dict_ok d) \<and> fst ` set a = fst ` set l \<and>
      (\<forall>u v. nbr a u v = sym_lookup q u v))"

definition bqm_valid :: "bqm \<Rightarrow> bool" where
  "bqm_valid m =
     (dict_ok (linear m) \<and> quadratic_ok (linear m) (quadratic m) \<and>
      adj_ok (linear m) (quadratic m) (adj m))"

section \<open>Example models\<close>

text \<open>Concrete models on which the theorems below are instantiated.\<close>

definition two_variable_model :: bqm where
  "two_variable_model =
     \<lparr>linear = [(IntL 0, 1), (IntL 1, 2)], quadratic = [((IntL 0, IntL 1), 3)],
      offset = 1 / 2, vartype = SPIN,
      adj = [(IntL 0, [(IntL 1, 3)]), (IntL 1, [(IntL 0, 3)])]\<rparr>"

text \<open>
  The edge-reversed quadratic dict of \<^verbatim>\<open>test__eq__quadratic_ordering\<close>:
  \<^verbatim>\<open>{(v, u): bias for (u, v), bias in quadratic.items()}\<close>.
\<close>

definition reversed_quadratic :: "(label \<times> label, bias) dict \<Rightarrow> (label \<times> label, bias) dict" where
  "reversed_quadratic q = dict_of_items (map (\<lambda>((u, v), b). ((v, u), b)) q)"

text \<open>The same reversal without the dict display, on a dict with distinct keys.\<close>

definition swap_keys :: "(label \<times> label, bias) dict \<Rightarrow> (label \<times> label, bias) dict" where
  "swap_keys q = map (\<lambda>((u, v), b). ((v, u), b)) q"

text \<open>The model of \<^verbatim>\<open>test_as_qubo_binary_to_qubo\<close>.\<close>

definition qubo_example_model :: bqm where
  "qubo_example_model =
     \<lparr>linear = [(IntL 0, 0), (IntL 1, 0)], quadratic = [((IntL 0, IntL 1), 1)],
      offset = 0, vartype = BINARY,
      adj = [(IntL 0, [(IntL 1, 1)]), (IntL 1, [(IntL 0, 1)])]\<rparr>"

text \<open>The linear biases as diagonal entries of a QUBO.\<close>

definition diagonal :: "(label, bias) dict \<Rightarrow> (label \<times> label, bias) dict" where
  "diagonal l = map (\<lambda>(v, b). ((v, v), b)) l"

text \<open>
  A model with the variables 0, 1 and 6 and the mapping that swaps 0 and 1; a model with
  the variables 0, 1 and 2 and a mapping that sends 0 and 1 to the same new label.
\<close>

definition swap_mapping :: "(label, label) dict" where
  "swap_mapping = [(IntL 0, IntL 1), (IntL 1, IntL 0)]"

definition six_model :: bqm where
  "six_model =
     \<lparr>linear = [(IntL 0, 1), (IntL 1, 2), (IntL 6, 3)], quadratic = [((IntL 0, IntL 1), 5)],
      offset = 0, vartype = SPIN,
      adj = [(IntL 0, [(IntL 1, 5)]), (IntL 1, [(IntL 0, 5)]), (IntL 6, [])]\<rparr>"

definition merge_mapping :: "(label, label) dict" where
  "merge_mapping = [(IntL 0, StrL ''a''), (IntL 1, StrL ''a'')]"

definition merge_model :: bqm where
  "merge_model =
     \<lparr>linear = [(IntL 0, 1), (IntL 1, 2), (IntL 2, 3)], quadratic = [((IntL 0, IntL 2), 5)],
      offset = 0, vartype = SPIN,
      adj = [(IntL 0, [(IntL 2, 5)]), (IntL 1, []), (IntL 2, [(IntL 0, 5)])]\<rparr>"

section \<open>Dictionary lemmas\<close>

lemma has_key_map_of: "has_key d k \<longleftrightarrow> map_of d k \<noteq> None"
  by (simp add: has_key_def map_of_eq_None_iff)

lemma getitem_Inr_iff: "getitem d k = Inr v \<longleftrightarrow> map_of d k = Some v"
  by (simp add: getitem_def split: option.splits)

lemma getitem_Inl_iff: "getitem d k = Inl e \<longleftrightarrow> e = KeyError \<and> \<not> has_key d k"
  by (auto simp: getitem_def has_key_map_of split: option.splits)

lemma map_of_setitem: "map_of (setitem d k v) = (map_of d)(k \<mapsto> v)"
  by (simp add: setitem_def update_conv')

lemma dict_ok_setitem: "dict_ok d \<Longrightarrow> dict_ok (setitem d k v)"
  by (simp add: dict_ok_def setitem_def distinct_update)

lemma keys_setitem: "fst ` set (setitem d k v) = insert k (fst ` set d)"
  by (simp add: setitem_def dom_update)

lemma has_key_setitem: "has_key (setitem d k v) k' \<longleftrightarrow> k' = k \<or> has_key d k'"
  by (simp add: has_key_def keys_setitem)

lemma setitem_fresh: "\<not> has_key d k \<Longrightarrow> setitem d k v = d @ [(k, v)]"
  by (induction d) (auto simp: setitem_def has_key_def)

lemma dict_of_items_aux:
  "distinct (map fst (d @ xs)) \<Longrightarrow> fold (\<lambda>(k, v) d. setitem d k v) xs d = d @ xs"
proof (induction xs arbitrary: d)
  case Nil
  then show ?case by simp
next
  case (Cons x xs)
  obtain k v where x: "x = (k, v)" by (cases x)
  from Cons.prems have "\<not> has_key d k" by (auto simp: has_key_def x)
  then have "setitem d k v = d @ [(k, v)]" by (rule setitem_fresh)
  moreover from Cons.prems have "distinct (map fst ((d @ [(k, v)]) @ xs))" by (simp add: x)
  ultimately show ?case using Cons.IH [of "d @ [(k, v)]"] by (simp add: x)
qed

lemma dict_of_items_distinct: "distinct (map fst xs) \<Longrightarrow> dict_of_items xs = xs"
  using dict_of_items_aux [of "[]" xs] by (simp add: dict_of_items_def)

lemma py_sum_Inr:
  "\<forall>x\<in>set xs. term x = Inr (f x) \<Longrightarrow> py_sum term xs acc = Inr (acc + sum_list (map f xs))"
  by (induction xs arbitrary: acc) (auto simp: algebra_simps)

lemma py_sum_Inl:
  "\<forall>x\<in>set xs. \<forall>e. term x = Inl e \<longrightarrow> e = KeyError \<Longrightarrow> \<exists>x\<in>set xs. \<exists>e. term x = Inl e \<Longrightarrow>
   py_sum term xs acc = Inl KeyError"
  by (induction xs arbitrary: acc) (auto split: sum.splits)

lemma snd_set_setitem: "snd ` set (setitem a k d) \<subseteq> insert d (snd ` set a)"
  unfolding setitem_def by (induction a) auto

section \<open>Relabelling\<close>

text \<open>\<^verbatim>\<open>mapping.get(v, v)\<close>.\<close>

definition get_default :: "(label, label) dict \<Rightarrow> label \<Rightarrow> label" where
  "get_default mp v = (case map_of mp v of None \<Rightarrow> v | Some w \<Rightarrow> w)"

text \<open>Lines 329--332: a new label that is a variable of the model and is not itself relabelled.\<close>

definition collision :: "(label, label) dict \<Rightarrow> bqm \<Rightarrow> bool" where
  "collision mp m = (\<exists>v\<in>snd ` set mp. has_key (linear m) v \<and> \<not> has_key mp v)"

text \<open>Lines 334--338, the branch \<^verbatim>\<open>copy=True\<close>: two dict comprehensions and the constructor.\<close>

definition relabel_copy :: "(label, label) dict \<Rightarrow> bqm \<Rightarrow> error + bqm" where
  "relabel_copy mp m =
     BinaryQuadraticModel
       (dict_of_items (map (\<lambda>(v, b). (get_default mp v, b)) (linear m)))
       (tuple_keys (dict_of_items
          (map (\<lambda>((u, v), b). ((get_default mp u, get_default mp v), b)) (quadratic m))))
       (offset m) (Member (vartype m))"

text \<open>
  Lines 391--393, for the neighbours \<open>us\<close> of \<open>old\<close>:
  \<^verbatim>\<open>adj[u][new] = adj[u][old]; del adj[u][old]\<close>.
\<close>

fun relabel_neighbours ::
  "label \<Rightarrow> label \<Rightarrow> label list \<Rightarrow> (label, (label, bias) dict) dict \<Rightarrow>
   error + (label, (label, bias) dict) dict" where
  "relabel_neighbours old new [] a = Inr a"
| "relabel_neighbours old new (u # us) a =
     (case getitem a u of
        Inl e \<Rightarrow> Inl e
      | Inr au \<Rightarrow>
          (case getitem au old of
             Inl e \<Rightarrow> Inl e
           | Inr b \<Rightarrow>
               (case delitem (setitem au new b) old of
                  Inl e \<Rightarrow> Inl e
                | Inr au' \<Rightarrow> relabel_neighbours old new us (setitem a u au'))))"

text \<open>
  Lines 386--396, the body of the first loop for one variable \<open>old\<close> of the mapping.
  After \<^verbatim>\<open>adj[new] = adj[old]\<close> the two entries are one and the same dict object,
  which the loop of lines 391--393 iterates while it updates the neighbours' dicts. With
  dicts as values this sharing shows only when \<open>old\<close> or \<open>new\<close> is among the
  neighbours of \<open>old\<close>. If \<open>old\<close> is not its own neighbour the lookup
  \<^verbatim>\<open>adj[u][old]\<close> then raises \<^verbatim>\<open>KeyError\<close> before anything is written, here as
  in Python. If \<open>old\<close> is its own neighbour, which no model built by the constructor
  has, Python mutates the dict it iterates and fails in a way that depends on the dict's
  internal layout; that case is cut short with \<^verbatim>\<open>RuntimeError\<close>.
\<close>

definition relabel_variable ::
  "label \<Rightarrow> label \<Rightarrow> (label, bias) dict \<times> (label, (label, bias) dict) dict \<Rightarrow>
   error + ((label, bias) dict \<times> (label, (label, bias) dict) dict)" where
  "relabel_variable old new st =
     (case st of (l, a) \<Rightarrow>
        (case getitem l old of
           Inl e \<Rightarrow> Inl e
         | Inr b \<Rightarrow>
             (case getitem a old of
                Inl e \<Rightarrow> Inl e
              | Inr d \<Rightarrow>
                  if has_key d old then Inl RuntimeError
                  else
                    (case relabel_neighbours old new (map fst d) (setitem a new d) of
                       Inl e \<Rightarrow> Inl e
                     | Inr a2 \<Rightarrow>
                         (case delitem (setitem l new b) old of
                            Inl e \<Rightarrow> Inl e
                          | Inr l2 \<Rightarrow>
                              (case delitem a2 old of
                                 Inl e \<Rightarrow> Inl e
                               | Inr a3 \<Rightarrow> Inr (l2, a3)))))))"

text \<open>Lines 382--396: the loop over \<^verbatim>\<open>list(linear)\<close>.\<close>

fun relabel_linear_adj ::
  "(label, label) dict \<Rightarrow> label list \<Rightarrow>
   (label, bias) dict \<times> (label, (label, bias) dict) dict \<Rightarrow>
   error + ((label, bias) dict \<times> (label, (label, bias) dict) dict)" where
  "relabel_linear_adj mp [] st = Inr st"
| "relabel_linear_adj mp (old # olds) st =
     (case map_of mp old of
        None \<Rightarrow> relabel_linear_adj mp olds st
      | Some new \<Rightarrow>
          (case relabel_variable old new st of
             Inl e \<Rightarrow> Inl e
           | Inr st' \<Rightarrow> relabel_linear_adj mp olds st'))"

text \<open>\<^verbatim>\<open>d[new] = d[old]; del d[old]\<close>.\<close>

definition move_item :: "('k, 'v) dict \<Rightarrow> 'k \<Rightarrow> 'k \<Rightarrow> error + ('k, 'v) dict" where
  "move_item d old new =
     (case getitem d old of Inl e \<Rightarrow> Inl e | Inr b \<Rightarrow> delitem (setitem d new b) old)"

text \<open>Lines 399--419: the loop over \<^verbatim>\<open>list(quadratic)\<close>.\<close>

fun relabel_quadratic ::
  "(label, label) dict \<Rightarrow> (label \<times> label) list \<Rightarrow> (label \<times> label, bias) dict \<Rightarrow>
   error + (label \<times> label, bias) dict" where
  "relabel_quadratic mp [] q = Inr q"
| "relabel_quadratic mp ((old_u, old_v) # ks) q =
     (if \<not> has_key mp old_u \<and> \<not> has_key mp old_v then relabel_quadratic mp ks q
      else
        let new_u = get_default mp old_u; new_v = get_default mp old_v in
        if has_key q (old_v, old_u) then
          (case move_item q (old_v, old_u) (new_v, new_u) of
             Inl e \<Rightarrow> Inl e
           | Inr q' \<Rightarrow> relabel_quadratic mp ks q')
        else if has_key q (old_u, old_v) then
          (case move_item q (old_u, old_v) (new_u, new_v) of
             Inl e \<Rightarrow> Inl e
           | Inr q' \<Rightarrow> relabel_quadratic mp ks q')
        else Inl RuntimeError)"

text \<open>Lines 377--421: the in-place relabelling when no label is both old and new.\<close>

definition relabel_direct :: "(label, label) dict \<Rightarrow> bqm \<Rightarrow> error + bqm" where
  "relabel_direct mp m =
     (case relabel_linear_adj mp (map fst (linear m)) (linear m, adj m) of
        Inl e \<Rightarrow> Inl e
      | Inr (l, a) \<Rightarrow>
          (case relabel_quadratic mp (map fst (quadratic m)) (quadratic m) of
             Inl e \<Rightarrow> Inl e
           | Inr q \<Rightarrow> Inr (m\<lparr>linear := l, adj := a, quadratic := q\<rparr>)))"

lemma length_filter_less:
  "x \<in> set xs \<Longrightarrow> P x \<Longrightarrow> \<not> Q x \<Longrightarrow> (\<And>y. Q y \<Longrightarrow> P y) \<Longrightarrow>
   length (filter Q xs) < length (filter P xs)"
proof (induction xs)
  case Nil
  then show ?case by simp
next
  case (Cons a xs)
  have le: "length (filter Q xs) \<le> length (filter P xs)"
    using Cons.prems(4) by (induction xs) auto
  show ?case
  proof (cases "x = a")
    case True
    then show ?thesis using Cons.prems(2,3) le by simp
  next
    case False
    with Cons.prems(1) have "x \<in> set xs" by simp
    from Cons.IH [OF this Cons.prems(2,3,4)] show ?thesis
      using Cons.prems(4) [of a] by auto
  qed
qed

text \<open>Lines 361--363: the next value of the counter that is neither a new nor an old label.\<close>

definition at_least :: "int \<Rightarrow> label \<Rightarrow> bool" where
  "at_least c x = (case x of IntL i \<Rightarrow> c \<le> i | StrL s \<Rightarrow> False)"

function fresh_label :: "label list \<Rightarrow> label list \<Rightarrow> int \<Rightarrow> int" where
  "fresh_label new_labels old_labels lbl =
     (if IntL lbl \<in> set new_labels \<or> IntL lbl \<in> set old_labels
      then fresh_label new_labels old_labels (lbl + 1) else lbl)"
  by pat_completeness auto
termination
proof (relation "measure (\<lambda>(ns, os, c). length (filter (at_least c) (ns @ os)))")
  show "wf (measure (\<lambda>(ns, os, c). length (filter (at_least c) (ns @ os))))" by simp
next
  fix new_labels old_labels :: "label list" and lbl :: int
  assume "IntL lbl \<in> set new_labels \<or> IntL lbl \<in> set old_labels"
  then have "IntL lbl \<in> set (new_labels @ old_labels)" by auto
  then have "length (filter (at_least (lbl + 1)) (new_labels @ old_labels))
      < length (filter (at_least lbl) (new_labels @ old_labels))"
    by (rule length_filter_less) (auto simp: at_least_def split: label.splits)
  then show "((new_labels, old_labels, lbl + 1), (new_labels, old_labels, lbl))
      \<in> measure (\<lambda>(ns, os, c). length (filter (at_least c) (ns @ os)))"
    by simp
qed

declare fresh_label.simps [simp del]

text \<open>
  Lines 353--371: the loop over the items of the mapping that fills
  \<^verbatim>\<open>old_to_intermediate\<close> and \<^verbatim>\<open>intermediate_to_new\<close>; \<open>counter\<close> is the next
  value of \<^verbatim>\<open>itertools.count\<close>.
\<close>

fun intermediate ::
  "label list \<Rightarrow> label list \<Rightarrow> (label \<times> label) list \<Rightarrow> int \<Rightarrow>
   (label, label) dict \<Rightarrow> (label, label) dict \<Rightarrow> (label, label) dict \<times> (label, label) dict" where
  "intermediate new_labels old_labels [] counter o2i i2n = (o2i, i2n)"
| "intermediate new_labels old_labels ((old, new) # items) counter o2i i2n =
     (if old = new then intermediate new_labels old_labels items counter o2i i2n
      else if old \<in> set new_labels \<or> new \<in> set old_labels then
        let lbl = fresh_label new_labels old_labels counter in
        intermediate new_labels old_labels items (lbl + 1)
          (setitem o2i old (IntL lbl)) (setitem i2n (IntL lbl) new)
      else intermediate new_labels old_labels items counter (setitem o2i old new) i2n)"

text \<open>Line 340: \<^verbatim>\<open>old_labels & new_labels\<close>, empty or not.\<close>

definition shared :: "(label, label) dict \<Rightarrow> label list" where
  "shared mp = filter (\<lambda>k. k \<in> snd ` set mp) (map fst mp)"


lemma fresh_label_fresh:
  "IntL (fresh_label NL OL c) \<notin> set NL \<and> IntL (fresh_label NL OL c) \<notin> set OL"
proof (induction NL OL c rule: fresh_label.induct)
  case (1 NL OL c)
  show ?case
  proof (cases "IntL c \<in> set NL \<or> IntL c \<in> set OL")
    case True
    then have "fresh_label NL OL c = fresh_label NL OL (c + 1)"
      by (subst fresh_label.simps) simp
    then show ?thesis using 1 [OF True] by simp
  next
    case False
    then have "fresh_label NL OL c = c" by (subst fresh_label.simps) simp
    then show ?thesis using False by simp
  qed
qed

lemma disjoint_insert_subset: "X \<subseteq> insert v Y \<Longrightarrow> Y \<inter> A = {} \<Longrightarrow> v \<notin> A \<Longrightarrow> X \<inter> A = {}"
  by auto

lemma subset_insert_subset: "X \<subseteq> insert v Y \<Longrightarrow> Y \<subseteq> A \<Longrightarrow> v \<in> A \<Longrightarrow> X \<subseteq> A"
  by auto

lemma intermediate_sets:
  "intermediate NL OL items c o2i i2n = (o2i', i2n') \<Longrightarrow>
   fst ` set items \<subseteq> set OL \<Longrightarrow> snd ` set items \<subseteq> set NL \<Longrightarrow>
   fst ` set o2i \<subseteq> set OL \<Longrightarrow> snd ` set o2i \<inter> set OL = {} \<Longrightarrow>
   fst ` set i2n \<inter> set NL = {} \<Longrightarrow> snd ` set i2n \<subseteq> set NL \<Longrightarrow>
   fst ` set o2i' \<subseteq> set OL \<and> snd ` set o2i' \<inter> set OL = {}
   \<and> fst ` set i2n' \<inter> set NL = {} \<and> snd ` set i2n' \<subseteq> set NL"
proof (induction NL OL items c o2i i2n rule: intermediate.induct)
  case (1 NL OL c o2i i2n)
  then show ?case by simp
next
  case (2 NL OL old new items c o2i i2n)
  from "2.prems"(2,3) have it: "fst ` set items \<subseteq> set OL" "snd ` set items \<subseteq> set NL"
    and on: "old \<in> set OL" "new \<in> set NL" by auto
  show ?case
  proof (cases "old = new")
    case True
    from "2.prems"(1) have r: "intermediate NL OL items c o2i i2n = (o2i', i2n')"
      by (simp only: intermediate.simps True refl if_True)
    show ?thesis by (rule "2.IH"(1) [OF True r it "2.prems"(4,5,6,7)])
  next
    case False
    note ne = this
    show ?thesis
    proof (cases "old \<in> set NL \<or> new \<in> set OL")
      case True
      let ?lbl = "fresh_label NL OL c"
      have fr: "IntL ?lbl \<notin> set NL" "IntL ?lbl \<notin> set OL"
        using fresh_label_fresh [of NL OL c] by simp_all
      have r: "intermediate NL OL items (?lbl + 1) (setitem o2i old (IntL ?lbl))
                 (setitem i2n (IntL ?lbl) new) = (o2i', i2n')"
        using "2.prems"(1) by (simp only: intermediate.simps ne True if_False if_True Let_def)
      have a: "fst ` set (setitem o2i old (IntL ?lbl)) \<subseteq> set OL"
        using "2.prems"(4) on by (simp add: keys_setitem)
      have b: "snd ` set (setitem o2i old (IntL ?lbl)) \<inter> set OL = {}"
        by (rule disjoint_insert_subset [OF snd_set_setitem "2.prems"(5) fr(2)])
      have c: "fst ` set (setitem i2n (IntL ?lbl) new) \<inter> set NL = {}"
        using "2.prems"(6) fr by (simp add: keys_setitem)
      have d: "snd ` set (setitem i2n (IntL ?lbl) new) \<subseteq> set NL"
        by (rule subset_insert_subset [OF snd_set_setitem "2.prems"(7) on(2)])
      show ?thesis by (rule "2.IH"(2) [OF ne True refl r it a b c d])
    next
      case False
      have r: "intermediate NL OL items c (setitem o2i old new) i2n = (o2i', i2n')"
        using "2.prems"(1) by (simp only: intermediate.simps ne False if_False if_True)
      have a: "fst ` set (setitem o2i old new) \<subseteq> set OL"
        using "2.prems"(4) on by (simp add: keys_setitem)
      have b: "snd ` set (setitem o2i old new) \<inter> set OL = {}"
      proof (rule disjoint_insert_subset [OF snd_set_setitem "2.prems"(5)])
        show "new \<notin> set OL" using False by simp
      qed
      show ?thesis by (rule "2.IH"(3) [OF ne False r it a b "2.prems"(6,7)])
    qed
  qed
qed

lemma shared_empty_keys_in:
  "fst ` set d \<subseteq> A \<Longrightarrow> snd ` set d \<inter> A = {} \<Longrightarrow> shared d = []"
  unfolding shared_def by (auto simp: filter_empty_conv)

lemma shared_empty_values_in:
  "fst ` set d \<inter> A = {} \<Longrightarrow> snd ` set d \<subseteq> A \<Longrightarrow> shared d = []"
  unfolding shared_def by (auto simp: filter_empty_conv)

lemma intermediate_shared:
  assumes "intermediate (map snd mp) (map fst mp) mp c [] [] = (o2i, i2n)"
  shows "shared o2i = []" "shared i2n = []"
proof -
  have 1: "fst ` set mp \<subseteq> set (map fst mp)" "snd ` set mp \<subseteq> set (map snd mp)" by simp_all
  have 2: "fst ` set ([] :: (label, label) dict) \<subseteq> set (map fst mp)"
    "snd ` set ([] :: (label, label) dict) \<inter> set (map fst mp) = {}"
    "fst ` set ([] :: (label, label) dict) \<inter> set (map snd mp) = {}"
    "snd ` set ([] :: (label, label) dict) \<subseteq> set (map snd mp)" by simp_all
  note r = intermediate_sets [OF assms 1 2]
  from r have "fst ` set o2i \<subseteq> set (map fst mp)" "snd ` set o2i \<inter> set (map fst mp) = {}"
    by blast+
  then show "shared o2i = []" by (rule shared_empty_keys_in)
  from r have "fst ` set i2n \<inter> set (map snd mp) = {}" "snd ` set i2n \<subseteq> set (map snd mp)"
    by blast+
  then show "shared i2n = []" by (rule shared_empty_values_in)
qed

text \<open>
  \<^verbatim>\<open>relabel_variables\<close>, lines 296--421. The two recursive calls run on mappings
  without shared labels, so they end in the direct branch: the function is total.
\<close>

function relabel_variables :: "(label, label) dict \<Rightarrow> bool \<Rightarrow> bqm \<Rightarrow> error + bqm" where
  "relabel_variables mp copy_flag m =
     (if collision mp m then Inl ValueError
      else if copy_flag then relabel_copy mp m
      else if shared mp \<noteq> [] then
        (case intermediate (map snd mp) (map fst mp) mp (2 * int (length (linear m))) [] [] of
           (old_to_intermediate, intermediate_to_new) \<Rightarrow>
             (case relabel_variables old_to_intermediate False m of
                Inl e \<Rightarrow> Inl e
              | Inr m1 \<Rightarrow> relabel_variables intermediate_to_new False m1))
      else relabel_direct mp m)"
  by pat_completeness auto
termination
proof (relation "measure (\<lambda>(mp, copy_flag, m). if shared mp \<noteq> [] then 1 else 0)")
  show "wf (measure (\<lambda>(mp, copy_flag :: bool, m :: bqm). if shared mp \<noteq> [] then 1 else (0 :: nat)))"
    by simp
next
  fix mp :: "(label, label) dict" and copy_flag :: bool and m :: bqm and x y
  assume s: "shared mp \<noteq> []"
    and i: "(x, y) = intermediate (map snd mp) (map fst mp) mp (2 * int (length (linear m))) [] []"
  from intermediate_shared(1) [OF i [symmetric]] s
  show "((x, False, m), mp, copy_flag, m)
      \<in> measure (\<lambda>(mp, copy_flag, m). if shared mp \<noteq> [] then 1 else 0)" by simp
next
  fix mp :: "(label, label) dict" and copy_flag :: bool and m b :: bqm and x y
  assume s: "shared mp \<noteq> []"
    and i: "(x, y) = intermediate (map snd mp) (map fst mp) mp (2 * int (length (linear m))) [] []"
  from intermediate_shared(2) [OF i [symmetric]] s
  show "((y, False, b), mp, copy_flag, m)
      \<in> measure (\<lambda>(mp, copy_flag, m). if shared mp \<noteq> [] then 1 else 0)" by simp
qed

declare relabel_variables.simps [simp del]

section \<open>Energy lemmas\<close>

lemma linear_term_Inr:
  "has_key l v \<Longrightarrow> has_key sample v \<Longrightarrow>
   linear_term l sample v = Inr (the (map_of l v) * the (map_of sample v))"
  by (auto simp: linear_term_def getitem_def has_key_map_of split: option.splits)

lemma quadratic_term_Inr:
  "has_key q e \<Longrightarrow> has_key sample (fst e) \<Longrightarrow> has_key sample (snd e) \<Longrightarrow>
   quadratic_term q sample e =
     Inr (the (map_of q e) * the (map_of sample (fst e)) * the (map_of sample (snd e)))"
  by (auto simp: quadratic_term_def getitem_def has_key_map_of split: option.splits)

lemma linear_term_Inl: "linear_term l sample v = Inl e \<Longrightarrow> e = KeyError"
  by (auto simp: linear_term_def getitem_def split: option.splits)

lemma quadratic_term_Inl: "quadratic_term q sample k = Inl e \<Longrightarrow> e = KeyError"
  by (auto simp: quadratic_term_def getitem_def split: option.splits)

lemma linear_term_missing: "\<not> has_key sample v \<Longrightarrow> \<exists>e. linear_term l sample v = Inl e"
  by (auto simp: linear_term_def getitem_def has_key_map_of split: option.splits)

lemma quadratic_term_missing:
  "\<not> has_key sample (fst k) \<or> \<not> has_key sample (snd k) \<Longrightarrow> \<exists>e. quadratic_term q sample k = Inl e"
  by (auto simp: quadratic_term_def getitem_def has_key_map_of split: option.splits)

lemma py_sum_cases:
  "(\<exists>s. py_sum term xs acc = Inr s) \<or> (\<exists>x\<in>set xs. \<exists>e. term x = Inl e \<and> py_sum term xs acc = Inl e)"
  by (induction xs arbitrary: acc) (auto split: sum.splits)

lemma energy_complete:
  assumes "dict_ok (linear m)" "dict_ok (quadratic m)"
    and "\<forall>v\<in>fst ` set (linear m). has_key sample v"
    and "\<forall>(u, v)\<in>fst ` set (quadratic m). has_key sample u \<and> has_key sample v"
  shows "energy m sample =
     Inr (offset m
          + (\<Sum>v\<in>fst ` set (linear m). the (map_of (linear m) v) * the (map_of sample v))
          + (\<Sum>(u, v)\<in>fst ` set (quadratic m).
               the (map_of (quadratic m) (u, v)) * the (map_of sample u) * the (map_of sample v)))"
proof -
  let ?f = "\<lambda>v. the (map_of (linear m) v) * the (map_of sample v)"
  let ?g = "\<lambda>k. the (map_of (quadratic m) k) * the (map_of sample (fst k)) * the (map_of sample (snd k))"
  have "\<forall>v\<in>set (map fst (linear m)). linear_term (linear m) sample v = Inr (?f v)"
    by (intro ballI linear_term_Inr) (use assms(3) in \<open>auto simp: has_key_def\<close>)
  then have s1: "py_sum (linear_term (linear m) sample) (map fst (linear m)) 0
                 = Inr (0 + sum_list (map ?f (map fst (linear m))))"
    by (rule py_sum_Inr)
  have "\<forall>k\<in>set (map fst (quadratic m)). quadratic_term (quadratic m) sample k = Inr (?g k)"
    by (intro ballI quadratic_term_Inr) (use assms(4) in \<open>force simp: has_key_def\<close>)+
  then have s2: "py_sum (quadratic_term (quadratic m) sample) (map fst (quadratic m)) 0
                 = Inr (0 + sum_list (map ?g (map fst (quadratic m))))"
    by (rule py_sum_Inr)
  have e1: "sum_list (map ?f (map fst (linear m))) = sum ?f (fst ` set (linear m))"
    using assms(1) sum_list_distinct_conv_sum_set [of "map fst (linear m)" ?f]
    by (simp add: dict_ok_def)
  have e2: "sum_list (map ?g (map fst (quadratic m))) = sum ?g (fst ` set (quadratic m))"
    using assms(2) sum_list_distinct_conv_sum_set [of "map fst (quadratic m)" ?g]
    by (simp add: dict_ok_def)
  have e3: "sum ?g (fst ` set (quadratic m)) =
     (\<Sum>(u, v)\<in>fst ` set (quadratic m).
               the (map_of (quadratic m) (u, v)) * the (map_of sample u) * the (map_of sample v))"
    by (rule sum.cong) (auto simp: case_prod_beta)
  show ?thesis
    unfolding energy_def s1 s2 e1 e2 e3 by simp
qed

lemma energy_missing:
  assumes "\<exists>v. (has_key (linear m) v \<or> (\<exists>u. has_key (quadratic m) (u, v) \<or> has_key (quadratic m) (v, u)))
              \<and> \<not> has_key sample v"
  shows "energy m sample = Inl KeyError"
proof -
  let ?lt = "linear_term (linear m) sample" and ?qt = "quadratic_term (quadratic m) sample"
  from assms obtain v where v: "\<not> has_key sample v"
    and cases: "has_key (linear m) v \<or> (\<exists>u. has_key (quadratic m) (u, v) \<or> has_key (quadratic m) (v, u))"
    by blast
  have l_err: "py_sum ?lt xs acc = Inl e \<Longrightarrow> e = KeyError" for xs acc e
    using py_sum_cases [of ?lt xs acc] by (auto dest: linear_term_Inl)
  from cases show ?thesis
  proof
    assume "has_key (linear m) v"
    then have "v \<in> set (map fst (linear m))" by (simp add: has_key_def)
    then have "\<exists>x\<in>set (map fst (linear m)). \<exists>e. ?lt x = Inl e"
      using linear_term_missing [OF v] by blast
    moreover have "\<forall>x\<in>set (map fst (linear m)). \<forall>e. ?lt x = Inl e \<longrightarrow> e = KeyError"
      by (auto dest: linear_term_Inl)
    ultimately have "py_sum ?lt (map fst (linear m)) 0 = Inl KeyError"
      by (rule py_sum_Inl [rotated])
    then show ?thesis by (simp add: energy_def)
  next
    assume "\<exists>u. has_key (quadratic m) (u, v) \<or> has_key (quadratic m) (v, u)"
    then obtain k where k: "k \<in> set (map fst (quadratic m))"
      and "\<not> has_key sample (fst k) \<or> \<not> has_key sample (snd k)"
      using v by (auto simp: has_key_def) force+
    then have "\<exists>x\<in>set (map fst (quadratic m)). \<exists>e. ?qt x = Inl e"
      using quadratic_term_missing by blast
    moreover have "\<forall>x\<in>set (map fst (quadratic m)). \<forall>e. ?qt x = Inl e \<longrightarrow> e = KeyError"
      by (auto dest: quadratic_term_Inl)
    ultimately have q: "py_sum ?qt (map fst (quadratic m)) 0 = Inl KeyError"
      by (rule py_sum_Inl [rotated])
    show ?thesis
    proof (cases "py_sum ?lt (map fst (linear m)) 0")
      case (Inl e)
      then show ?thesis using l_err [OF Inl] by (simp add: energy_def)
    next
      case (Inr s)
      then show ?thesis using q by (simp add: energy_def)
    qed
  qed
qed

section \<open>The example models are valid\<close>

lemma two_variable_model_valid: "bqm_valid two_variable_model"
  by (auto simp: bqm_valid_def two_variable_model_def dict_ok_def quadratic_ok_def adj_ok_def
      has_key_def nbr_def sym_lookup_def)

lemma two_variable_model_constructed:
  "BinaryQuadraticModel [(IntL 0, 1), (IntL 1, 2)] (tuple_keys [((IntL 0, IntL 1), 3)]) (1 / 2)
     (Member SPIN) = Inr two_variable_model"
  by (simp add: BinaryQuadraticModel_def normalize_vartype_def check_quadratic_def tuple_keys_def
      empty_adj_def dict_of_items_def setitem_def getitem_def has_key_def two_variable_model_def
      Let_def)

lemma qubo_example_model_valid: "bqm_valid qubo_example_model"
  by (auto simp: bqm_valid_def qubo_example_model_def dict_ok_def quadratic_ok_def adj_ok_def
      has_key_def nbr_def sym_lookup_def)

section \<open>Construction lemmas\<close>

lemma normalize_vartype_cases:
  "normalize_vartype tok = Inr SPIN \<or> normalize_vartype tok = Inr BINARY
   \<or> normalize_vartype tok = Inl TypeError"
  by (cases tok) (auto simp: normalize_vartype_def Vartype_by_name_def split: vartype.splits)

lemma normalize_vartype_unknown:
  "normalize_vartype (Number n) = Inl TypeError"
  "s \<noteq> ''SPIN'' \<Longrightarrow> s \<noteq> ''BINARY'' \<Longrightarrow> normalize_vartype (Name s) = Inl TypeError"
  by (simp_all add: normalize_vartype_def Vartype_by_name_def)

lemma constructor_bad_vartype:
  "normalize_vartype tok = Inl TypeError \<Longrightarrow> BinaryQuadraticModel l q off tok = Inl TypeError"
  by (simp add: BinaryQuadraticModel_def)

lemma nbr_setitem:
  "nbr (setitem a u d) x y = (if x = u then map_of d y else nbr a x y)"
  by (simp add: nbr_def map_of_setitem)

lemma sym_lookup_None: "sym_lookup P u v = None \<longleftrightarrow> \<not> has_key P (u, v) \<and> \<not> has_key P (v, u)"
  by (auto simp: sym_lookup_def has_key_map_of split: option.splits)

lemma map_of_snoc:
  "map_of (P @ [(k, b)]) k' = (case map_of P k' of None \<Rightarrow> (if k' = k then Some b else None) | Some c \<Rightarrow> Some c)"
  by (simp add: map_add_def split: option.splits)

lemma has_key_snoc: "has_key (P @ [(k, b)]) k' \<longleftrightarrow> k' = k \<or> has_key P k'"
  by (auto simp: has_key_def)

lemma quadratic_ok_snoc:
  assumes "quadratic_ok l P" "\<not> has_key P (u, v)" "\<not> has_key P (v, u)" "u \<noteq> v"
    "has_key l u" "has_key l v"
  shows "quadratic_ok l (P @ [((u, v), b)])"
proof -
  from assms(1) have d: "dict_ok P"
    and q: "\<And>x y. has_key P (x, y) \<Longrightarrow>
              has_key l x \<and> has_key l y \<and> x \<noteq> y \<and> \<not> has_key P (y, x)"
    by (simp_all add: quadratic_ok_def)
  have "dict_ok (P @ [((u, v), b)])"
    using d assms(2) by (simp add: dict_ok_def has_key_def)
  moreover have "has_key l x \<and> has_key l y \<and> x \<noteq> y \<and> \<not> has_key (P @ [((u, v), b)]) (y, x)"
    if "has_key (P @ [((u, v), b)]) (x, y)" for x y
  proof (cases "(x, y) = (u, v)")
    case True
    then show ?thesis using assms by (simp add: has_key_snoc)
  next
    case False
    with that have "has_key P (x, y)" by (auto simp: has_key_snoc)
    from q [OF this] this assms(3) show ?thesis by (auto simp: has_key_snoc)
  qed
  ultimately show ?thesis unfolding quadratic_ok_def by blast
qed


lemma sym_lookup_snoc_fresh:
  assumes "\<not> has_key P (u, v)" "\<not> has_key P (v, u)" "u \<noteq> v"
  shows "sym_lookup (P @ [((u, v), b)]) x y =
           (if (x, y) = (u, v) \<or> (x, y) = (v, u) then Some b else sym_lookup P x y)"
proof -
  from assms have n: "map_of P (u, v) = None" "map_of P (v, u) = None"
    by (simp_all add: has_key_map_of)
  show ?thesis
    using n assms(3) by (auto simp: sym_lookup_def map_add_def split: option.splits)
qed

lemma build_adj_step_ok:
  assumes ok: "adj_ok l P a" and qok: "quadratic_ok l P"
    and uv: "u \<noteq> v" and hu: "has_key l u" and hv: "has_key l v"
    and au: "getitem a u = Inr au" and nv: "\<not> has_key au v"
    and av: "getitem a v = Inr av" and nu: "\<not> has_key av u"
  shows "adj_ok l (P @ [((u, v), b)]) (setitem (setitem a u (setitem au v b)) v (setitem av u b))
         \<and> quadratic_ok l (P @ [((u, v), b)])"
proof -
  let ?a2 = "setitem (setitem a u (setitem au v b)) v (setitem av u b)"
  from au have mau: "map_of a u = Some au" by (simp add: getitem_Inr_iff)
  from av have mav: "map_of a v = Some av" by (simp add: getitem_Inr_iff)
  from ok have da: "dict_ok a" and dd: "\<forall>d\<in>snd ` set a. dict_ok d"
    and keys: "fst ` set a = fst ` set l" and nb: "\<And>x y. nbr a x y = sym_lookup P x y"
    by (simp_all add: adj_ok_def)
  have "(u, au) \<in> set a" using mau by (rule map_of_SomeD)
  then have iu: "au \<in> snd ` set a" "u \<in> fst ` set a" by force+
  have "(v, av) \<in> set a" using mav by (rule map_of_SomeD)
  then have iv: "av \<in> snd ` set a" "v \<in> fst ` set a" by force+
  have dau: "dict_ok au" and dav: "dict_ok av" using dd iu iv by blast+
  have "nbr a u v = None" using mau nv by (simp add: nbr_def has_key_map_of)
  then have fresh: "\<not> has_key P (u, v)" "\<not> has_key P (v, u)"
    using nb [of u v] by (simp_all add: sym_lookup_None)
  have 1: "dict_ok ?a2" using da by (intro dict_ok_setitem)
  have 2: "\<forall>d\<in>snd ` set ?a2. dict_ok d"
  proof
    fix d assume "d \<in> snd ` set ?a2"
    then have "d = setitem av u b \<or> d \<in> snd ` set (setitem a u (setitem au v b))"
      using snd_set_setitem [of "setitem a u (setitem au v b)" v "setitem av u b"] by blast
    then have "d = setitem av u b \<or> d = setitem au v b \<or> d \<in> snd ` set a"
      using snd_set_setitem [of a u "setitem au v b"] by blast
    then show "dict_ok d" using dau dav dd by (auto intro: dict_ok_setitem)
  qed
  have 3: "fst ` set ?a2 = fst ` set l"
    using keys iu(2) iv(2) by (auto simp: keys_setitem)
  have nu': "nbr a u y = map_of au y" and nv': "nbr a v y = map_of av y" for y
    using mau mav by (simp_all add: nbr_def)
  have 4: "nbr ?a2 x y = sym_lookup (P @ [((u, v), b)]) x y" for x y
  proof -
    have "nbr ?a2 x y =
        (if x = v then (if y = u then Some b else sym_lookup P v y)
         else if x = u then (if y = v then Some b else sym_lookup P u y)
         else sym_lookup P x y)"
      by (simp add: nbr_setitem map_of_setitem nu' [symmetric] nv' [symmetric] nb)
    also have "\<dots> = (if (x, y) = (u, v) \<or> (x, y) = (v, u) then Some b else sym_lookup P x y)"
      using uv by auto
    finally show ?thesis by (simp add: sym_lookup_snoc_fresh [OF fresh uv])
  qed
  have 5: "quadratic_ok l (P @ [((u, v), b)])"
    using qok fresh uv hu hv by (rule quadratic_ok_snoc)
  show ?thesis using 1 2 3 4 5 by (simp add: adj_ok_def)
qed


lemma getitem_setitem_other: "k' \<noteq> k \<Longrightarrow> getitem (setitem a k d) k' = getitem a k'"
  by (simp add: getitem_def map_of_setitem)

lemma build_adj_ok:
  "build_adj a q = Inr a' \<Longrightarrow> adj_ok l P a \<Longrightarrow> quadratic_ok l P \<Longrightarrow>
   (\<forall>u v. has_key q (u, v) \<longrightarrow> has_key l u \<and> has_key l v) \<Longrightarrow>
   adj_ok l (P @ q) a' \<and> quadratic_ok l (P @ q)"
proof (induction q arbitrary: a P)
  case Nil
  then show ?case by simp
next
  case (Cons e q)
  obtain u v b where e: "e = ((u, v), b)" by (cases e) auto
  from Cons.prems(4) have hu: "has_key l u" and hv: "has_key l v"
    by (auto simp: e has_key_def)
  from Cons.prems(1) have uv: "u \<noteq> v" by (auto simp: e split: if_splits)
  from Cons.prems(1) uv obtain au where au: "getitem a u = Inr au"
    by (cases "getitem a u") (auto simp: e)
  from Cons.prems(1) uv au have nv: "\<not> has_key au v"
    by (auto simp: e split: if_splits)
  from Cons.prems(1) uv au nv obtain av where av': "getitem (setitem a u (setitem au v b)) v = Inr av"
    by (cases "getitem (setitem a u (setitem au v b)) v") (auto simp: e Let_def)
  then have av: "getitem a v = Inr av" using uv by (simp add: getitem_setitem_other)
  from Cons.prems(1) uv au nv av' have nu: "\<not> has_key av u"
    by (auto simp: e Let_def split: if_splits)
  let ?a2 = "setitem (setitem a u (setitem au v b)) v (setitem av u b)"
  from Cons.prems(1) uv au nv av' nu have rest: "build_adj ?a2 q = Inr a'"
    by (simp add: e Let_def)
  from build_adj_step_ok [OF Cons.prems(2,3) uv hu hv au nv av nu, of b]
  have "adj_ok l (P @ [e]) ?a2" "quadratic_ok l (P @ [e])" by (simp_all add: e)
  moreover from Cons.prems(4) have "\<forall>u v. has_key q (u, v) \<longrightarrow> has_key l u \<and> has_key l v"
    by (auto simp: has_key_def)
  ultimately show ?case using Cons.IH [OF rest, of "P @ [e]"] by simp
qed

lemma build_adj_succeeds:
  "adj_ok l P a \<Longrightarrow> quadratic_ok l (P @ q) \<Longrightarrow> \<exists>a'. build_adj a q = Inr a' \<and> adj_ok l (P @ q) a'"
proof (induction q arbitrary: a P)
  case Nil
  then show ?case by simp
next
  case (Cons e q)
  obtain u v b where e: "e = ((u, v), b)" by (cases e) auto
  from Cons.prems(2) have d: "dict_ok (P @ e # q)"
    and qq: "\<And>x y. has_key (P @ e # q) (x, y) \<Longrightarrow>
           has_key l x \<and> has_key l y \<and> x \<noteq> y \<and> \<not> has_key (P @ e # q) (y, x)"
    by (simp_all add: quadratic_ok_def)
  have huv: "has_key (P @ e # q) (u, v)" by (simp add: has_key_def e)
  from qq [OF huv] have hu: "has_key l u" and hv: "has_key l v" and uv: "u \<noteq> v"
    and nrev: "\<not> has_key (P @ e # q) (v, u)" by simp_all
  from d have f1: "\<not> has_key P (u, v)" by (auto simp: dict_ok_def has_key_def e)
  from nrev have f2: "\<not> has_key P (v, u)" by (auto simp: has_key_def)
  from Cons.prems(1) have keys: "fst ` set a = fst ` set l"
    and nb: "\<And>x y. nbr a x y = sym_lookup P x y" by (simp_all add: adj_ok_def)
  from hu keys obtain au where mau: "map_of a u = Some au"
    by (auto simp: has_key_def) (metis has_key_def has_key_map_of image_eqI not_None_eq fst_conv)
  from hv keys obtain av where mav: "map_of a v = Some av"
    by (auto simp: has_key_def) (metis has_key_def has_key_map_of image_eqI not_None_eq fst_conv)
  have "nbr a u v = None" "nbr a v u = None"
    using nb f1 f2 by (simp_all add: sym_lookup_None)
  then have nv: "\<not> has_key au v" and nu: "\<not> has_key av u"
    using mau mav by (simp_all add: nbr_def has_key_map_of)
  have au: "getitem a u = Inr au" and av: "getitem a v = Inr av"
    using mau mav by (simp_all add: getitem_Inr_iff)
  let ?a2 = "setitem (setitem a u (setitem au v b)) v (setitem av u b)"
  have qP: "quadratic_ok l P"
  proof -
    have "dict_ok P" using d by (simp add: dict_ok_def)
    moreover have "has_key l x \<and> has_key l y \<and> x \<noteq> y \<and> \<not> has_key P (y, x)"
      if "has_key P (x, y)" for x y
    proof -
      from that have "has_key (P @ e # q) (x, y)" by (auto simp: has_key_def)
      from qq [OF this] show ?thesis by (auto simp: has_key_def)
    qed
    ultimately show ?thesis unfolding quadratic_ok_def by blast
  qed
  from build_adj_step_ok [OF Cons.prems(1) qP uv hu hv au nv av nu, of b]
  have step: "adj_ok l (P @ [e]) ?a2" by (simp add: e)
  from Cons.prems(2) have "quadratic_ok l ((P @ [e]) @ q)" by simp
  from Cons.IH [OF step this] obtain a' where "build_adj ?a2 q = Inr a'" "adj_ok l (P @ e # q) a'"
    by auto
  moreover have "build_adj a (e # q) = build_adj ?a2 q"
    using uv au nv av nu by (simp add: e Let_def getitem_setitem_other)
  ultimately show ?case by simp
qed


lemma empty_adj_ok: "dict_ok l \<Longrightarrow> adj_ok l [] (empty_adj l)"
proof -
  assume d: "dict_ok l"
  let ?e = "map (\<lambda>(v, b). (v, [] :: (label, bias) dict)) l"
  have k: "map fst ?e = map fst l" by (induction l) auto
  then have "distinct (map fst ?e)" using d by (simp only: dict_ok_def)
  then have e: "empty_adj l = ?e"
    by (simp only: empty_adj_def dict_of_items_distinct)
  have h: "map_of ?e u = Some d' \<Longrightarrow> d' = []" for u d'
    by (auto dest!: map_of_SomeD)
  have "nbr (empty_adj l) u v = None" for u v
    unfolding e nbr_def by (cases "map_of ?e u") (auto dest: h)
  moreover have "dict_ok (empty_adj l)" using d k by (simp only: e dict_ok_def)
  moreover have "fst ` set (empty_adj l) = fst ` set l"
    using k unfolding e by (metis list.set_map)
  moreover have "\<forall>d\<in>snd ` set (empty_adj l). dict_ok d"
    unfolding e by (auto simp: dict_ok_def)
  ultimately show ?thesis
    by (simp add: adj_ok_def sym_lookup_def)
qed

lemma quadratic_ok_Nil: "quadratic_ok l []"
  by (simp add: quadratic_ok_def dict_ok_def has_key_def)

lemma all_in_linear_Inr:
  "all_in_linear l q = Inr (True, ps) \<Longrightarrow>
   q = tuple_keys ps \<and> (\<forall>u v. has_key ps (u, v) \<longrightarrow> has_key l u \<and> has_key l v)"
proof (induction q arbitrary: ps)
  case Nil
  then show ?case by (simp add: tuple_keys_def has_key_def)
next
  case (Cons e q)
  obtain k b where e: "e = (k, b)" by (cases e)
  from Cons.prems obtain u v where k: "unpack k = Inr (u, v)"
    by (cases "unpack k") (auto simp: e)
  then have kt: "k = Tuple [u, v]" by (cases k rule: unpack.cases) auto
  from Cons.prems k have h: "has_key l u" "has_key l v"
    by (auto simp: e split: if_splits)
  from Cons.prems k h obtain ps' where r: "all_in_linear l q = Inr (True, ps')" and ps: "ps = ((u, v), b) # ps'"
    by (cases "all_in_linear l q") (auto simp: e)
  from Cons.IH [OF r] h show ?case
    by (auto simp: ps e kt tuple_keys_def has_key_def)
qed

lemma all_in_linear_tuple_keys:
  "all_in_linear l (tuple_keys q) =
     (if \<forall>u v. has_key q (u, v) \<longrightarrow> has_key l u \<and> has_key l v then Inr (True, q)
      else Inr (False, snd (projr (all_in_linear l (tuple_keys q)))))"
proof (induction q)
  case Nil
  then show ?case by (simp add: tuple_keys_def has_key_def)
next
  case (Cons e q)
  obtain u v b where e: "e = ((u, v), b)" by (cases e) auto
  have t: "tuple_keys (e # q) = (Tuple [u, v], b) # tuple_keys q"
    by (simp add: tuple_keys_def e)
  have hk: "has_key (e # q) (x, y) \<longleftrightarrow> (x, y) = (u, v) \<or> has_key q (x, y)" for x y
    by (auto simp: has_key_def e)
  show ?case
  proof (cases "has_key l u \<and> has_key l v")
    case False
    then show ?thesis unfolding t by (auto simp: hk)
  next
    case True
    show ?thesis
    proof (cases "\<forall>u v. has_key q (u, v) \<longrightarrow> has_key l u \<and> has_key l v")
      case True
      with Cons.IH have "all_in_linear l (tuple_keys q) = Inr (True, q)" by simp
      then show ?thesis unfolding t using True \<open>has_key l u \<and> has_key l v\<close>
        by (auto simp: e has_key_def)
    next
      case False
      with Cons.IH obtain r where "all_in_linear l (tuple_keys q) = Inr (False, r)" by metis
      then show ?thesis unfolding t using False \<open>has_key l u \<and> has_key l v\<close>
        by (auto simp: hk)
    qed
  qed
qed

lemma check_quadratic_tuple_keys:
  "check_quadratic l (tuple_keys q) =
     (if \<forall>u v. has_key q (u, v) \<longrightarrow> has_key l u \<and> has_key l v then Inr q else Inl ValueError)"
  unfolding check_quadratic_def
  by (subst all_in_linear_tuple_keys) simp

lemma check_quadratic_Inr:
  "check_quadratic l q = Inr ps \<Longrightarrow>
   q = tuple_keys ps \<and> (\<forall>u v. has_key ps (u, v) \<longrightarrow> has_key l u \<and> has_key l v)"
  unfolding check_quadratic_def
  by (rule all_in_linear_Inr) (auto split: sum.splits error.splits if_splits)

lemma constructor_valid:
  assumes "BinaryQuadraticModel l q off tok = Inr m" "dict_ok l"
  shows "bqm_valid m \<and> linear m = l \<and> tuple_keys (quadratic m) = q \<and> offset m = off
         \<and> normalize_vartype tok = Inr (vartype m)"
proof -
  from assms(1) obtain vt where vt: "normalize_vartype tok = Inr vt"
    by (cases "normalize_vartype tok") (auto simp: BinaryQuadraticModel_def)
  from assms(1) vt obtain ps where ps: "check_quadratic l q = Inr ps"
    by (cases "check_quadratic l q") (auto simp: BinaryQuadraticModel_def)
  from assms(1) vt ps obtain a where a: "build_adj (empty_adj l) ps = Inr a"
    by (cases "build_adj (empty_adj l) ps") (auto simp: BinaryQuadraticModel_def)
  from assms(1) vt ps a
  have m: "m = \<lparr>linear = l, quadratic = ps, offset = off, vartype = vt, adj = a\<rparr>"
    by (simp add: BinaryQuadraticModel_def)
  from check_quadratic_Inr [OF ps]
  have q: "q = tuple_keys ps" and inl: "\<forall>u v. has_key ps (u, v) \<longrightarrow> has_key l u \<and> has_key l v"
    by simp_all
  from build_adj_ok [OF a empty_adj_ok [OF assms(2)] quadratic_ok_Nil inl]
  have "adj_ok l ps a" "quadratic_ok l ps" by simp_all
  then show ?thesis using assms(2) q vt by (simp add: m bqm_valid_def)
qed

lemma constructor_succeeds:
  assumes "dict_ok l" "quadratic_ok l q"
  shows "\<exists>a. BinaryQuadraticModel l (tuple_keys q) off (Member vt)
             = Inr \<lparr>linear = l, quadratic = q, offset = off, vartype = vt, adj = a\<rparr>
           \<and> adj_ok l q a"
proof -
  have vt: "normalize_vartype (Member vt) = Inr vt"
    by (cases vt) (simp_all add: normalize_vartype_def)
  from assms(2) have "\<forall>u v. has_key q (u, v) \<longrightarrow> has_key l u \<and> has_key l v"
    by (simp add: quadratic_ok_def)
  then have c: "check_quadratic l (tuple_keys q) = Inr q"
    by (simp add: check_quadratic_tuple_keys)
  from build_adj_succeeds [OF empty_adj_ok [OF assms(1)], of q] assms(2)
  obtain a where "build_adj (empty_adj l) q = Inr a" "adj_ok l q a" by auto
  then show ?thesis using vt c by (auto simp: BinaryQuadraticModel_def)
qed

lemma update_commute_present:
  "k \<noteq> k' \<Longrightarrow> k \<in> fst ` set al \<Longrightarrow> k' \<in> fst ` set al \<Longrightarrow>
   AList.update k v (AList.update k' v' al) = AList.update k' v' (AList.update k v al)"
proof (induction al)
  case Nil
  then show ?case by simp
next
  case (Cons p al)
  show ?case
  proof (cases "fst p = k")
    case True
    then show ?thesis using Cons.prems(1) by (cases p) auto
  next
    case False
    note nk = this
    show ?thesis
    proof (cases "fst p = k'")
      case True
      then show ?thesis using Cons.prems(1) by (cases p) auto
    next
      case False
      then show ?thesis using nk Cons by (cases p) auto
    qed
  qed
qed

lemma setitem_commute_present:
  "k \<noteq> k' \<Longrightarrow> has_key a k \<Longrightarrow> has_key a k' \<Longrightarrow>
   setitem (setitem a k' v') k v = setitem (setitem a k v) k' v'"
  by (simp add: setitem_def has_key_def update_commute_present)


lemma build_adj_Cons_present:
  assumes "map_of a u = Some au" "map_of a v = Some av" "u \<noteq> v"
  shows "build_adj a (((u, v), b) # q) =
     (if has_key au v \<or> has_key av u then Inl ValueError
      else build_adj (setitem (setitem a u (setitem au v b)) v (setitem av u b)) q)"
  using assms by (simp add: getitem_def map_of_setitem Let_def)


section \<open>Equality of dicts and of adjacencies\<close>

lemma dict_ok_length: "dict_ok d \<Longrightarrow> length d = card (fst ` set d)"
  using distinct_card [of "map fst d"] by (simp add: dict_ok_def)

lemma dict_eq_intro:
  assumes "dict_ok d1" "dict_ok d2" "map_of d1 = map_of d2"
  shows "dict_eq d1 d2"
proof -
  have "fst ` set d1 = fst ` set d2"
    using assms(3) by (metis dom_map_of_conv_image_fst)
  then have "length d1 = length d2"
    using assms(1,2) by (simp add: dict_ok_length)
  moreover have "map_of d2 k = Some v" if "(k, v) \<in> set d1" for k v
    using that assms(1,3) by (metis dict_ok_def map_of_is_SomeI)
  ultimately show ?thesis by (auto simp: dict_eq_def list_all_iff)
qed

lemma adj_eq_intro:
  assumes "dict_ok a1" "dict_ok a2"
    and "\<forall>d\<in>snd ` set a1. dict_ok d" "\<forall>d\<in>snd ` set a2. dict_ok d"
    and keys: "fst ` set a1 = fst ` set a2"
    and nb: "\<And>u v. nbr a1 u v = nbr a2 u v"
  shows "adj_eq a1 a2"
proof -
  have "length a1 = length a2" using assms(1,2) keys by (simp add: dict_ok_length)
  moreover have "case map_of a2 k of None \<Rightarrow> False | Some d' \<Rightarrow> dict_eq d d'"
    if kd: "(k, d) \<in> set a1" for k d
  proof -
    from kd have m1: "map_of a1 k = Some d" using assms(1) by (simp add: dict_ok_def)
    from kd have "k \<in> fst ` set a2" using keys by force
    then obtain d' where m2: "map_of a2 k = Some d'"
      by (metis has_key_def has_key_map_of not_None_eq)
    then have "(k, d') \<in> set a2" by (rule map_of_SomeD)
    then have "dict_ok d'" using assms(4) by force
    moreover have "dict_ok d" using kd assms(3) by force
    moreover have "map_of d = map_of d'"
    proof
      fix v show "map_of d v = map_of d' v" using nb [of k v] m1 m2 by (simp add: nbr_def)
    qed
    ultimately have "dict_eq d d'" by (intro dict_eq_intro)
    then show ?thesis by (simp add: m2)
  qed
  ultimately show ?thesis by (auto simp: adj_eq_def list_all_iff)
qed

lemma adj_ok_adj_eq: "adj_ok l q a1 \<Longrightarrow> adj_ok l q a2 \<Longrightarrow> adj_eq a1 a2"
  by (rule adj_eq_intro) (simp_all add: adj_ok_def)

section \<open>Reversal of the quadratic keys\<close>

lemma build_adj_swap_keys:
  "(\<forall>u v. has_key q (u, v) \<longrightarrow> has_key a u \<and> has_key a v) \<Longrightarrow>
   build_adj a (swap_keys q) = build_adj a q"
proof (induction q arbitrary: a)
  case Nil
  then show ?case by (simp add: swap_keys_def)
next
  case (Cons e q)
  obtain u v b where e: "e = ((u, v), b)" by (cases e) auto
  have sw: "swap_keys (e # q) = ((v, u), b) # swap_keys q" by (simp add: swap_keys_def e)
  from Cons.prems have hu: "has_key a u" and hv: "has_key a v"
    by (auto simp: has_key_def e)
  from Cons.prems have rest: "\<forall>x y. has_key q (x, y) \<longrightarrow> has_key a x \<and> has_key a y"
    by (auto simp: has_key_def)
  show ?case
  proof (cases "u = v")
    case True
    then show ?thesis by (simp add: swap_keys_def e)
  next
    case False
    from hu obtain au where au: "map_of a u = Some au" by (auto simp: has_key_map_of)
    from hv obtain av where av: "map_of a v = Some av" by (auto simp: has_key_map_of)
    let ?a2 = "setitem (setitem a u (setitem au v b)) v (setitem av u b)"
    let ?a2' = "setitem (setitem a v (setitem av u b)) u (setitem au v b)"
    have eq: "?a2' = ?a2" using False hu hv by (simp add: setitem_commute_present)
    have keys: "has_key ?a2 x \<longleftrightarrow> has_key a x" for x
      using hu hv by (auto simp: has_key_setitem)
    have "build_adj ?a2 (swap_keys q) = build_adj ?a2 q"
      using rest by (intro Cons.IH) (simp add: keys)
    moreover have "build_adj a (e # q) =
       (if has_key au v \<or> has_key av u then Inl ValueError else build_adj ?a2 q)"
      unfolding e using au av False by (rule build_adj_Cons_present)
    moreover have "build_adj a (swap_keys (e # q)) =
       (if has_key av u \<or> has_key au v then Inl ValueError else build_adj ?a2' (swap_keys q))"
      unfolding sw using av au False [symmetric] by (rule build_adj_Cons_present)
    ultimately show ?thesis using eq by auto
  qed
qed


lemma constructor_tuple_keys_Inr_iff:
  "BinaryQuadraticModel l (tuple_keys q) off tok = Inr m \<longleftrightarrow>
     (\<exists>vt a. normalize_vartype tok = Inr vt
        \<and> (\<forall>u v. has_key q (u, v) \<longrightarrow> has_key l u \<and> has_key l v)
        \<and> build_adj (empty_adj l) q = Inr a
        \<and> m = \<lparr>linear = l, quadratic = q, offset = off, vartype = vt, adj = a\<rparr>)"
  by (auto simp: BinaryQuadraticModel_def check_quadratic_tuple_keys split: sum.splits)

lemma reversed_quadratic_swap_keys: "dict_ok q \<Longrightarrow> reversed_quadratic q = swap_keys q"
proof -
  assume "dict_ok q"
  have "map fst (map (\<lambda>((u, v), b). ((v, u), b)) q) = map prod.swap (map fst q)"
    by (induction q) auto
  moreover have "distinct (map prod.swap (map fst q))"
    using \<open>dict_ok q\<close> unfolding dict_ok_def
    by (subst distinct_map) (auto intro: inj_onI)
  ultimately have "distinct (map fst (map (\<lambda>((u, v), b). ((v, u), b)) q))"
    by (simp only:)
  then show ?thesis
    by (simp only: reversed_quadratic_def swap_keys_def dict_of_items_distinct)
qed

lemma has_key_swap_keys: "has_key (swap_keys q) (u, v) \<longleftrightarrow> has_key q (v, u)"
  by (force simp: has_key_def swap_keys_def)

lemma bqm_eq_same_parts:
  assumes "bqm_valid m" "linear m' = linear m" "adj m' = adj m" "offset m' = offset m"
    "vartype m' = vartype m"
  shows "bqm_eq m' m \<and> bqm_eq m m'"
proof -
  from assms(1) have "dict_ok (linear m)" "adj_ok (linear m) (quadratic m) (adj m)"
    by (simp_all add: bqm_valid_def)
  then have "dict_eq (linear m) (linear m)" "adj_eq (adj m) (adj m)"
    by (auto intro: dict_eq_intro adj_ok_adj_eq)
  then show ?thesis using assms(2-) by (simp add: bqm_eq_def)
qed

section \<open>Export lemmas\<close>

lemma map_of_diagonal:
  "map_of (diagonal l) (u, v) = (if u = v then map_of l u else None)"
  by (induction l) (auto simp: diagonal_def)

lemma fold_diagonal:
  "fold (\<lambda>(v, b) qubo. setitem qubo (v, v) b) l d = fold (\<lambda>(k, b) d. setitem d k b) (diagonal l) d"
  by (induction l arbitrary: d) (auto simp: diagonal_def)

lemma as_qubo_binary_list:
  assumes "bqm_valid m" "vartype m = BINARY"
  shows "as_qubo conv m = Inr (diagonal (linear m) @ quadratic m, offset m)"
    and "dict_ok (diagonal (linear m) @ quadratic m)"
proof -
  from assms(1) have dl: "distinct (map fst (linear m))" and dq: "distinct (map fst (quadratic m))"
    and nd: "\<And>u v. has_key (quadratic m) (u, v) \<Longrightarrow> u \<noteq> v"
    by (simp_all add: bqm_valid_def quadratic_ok_def dict_ok_def)
  have kd: "map fst (diagonal (linear m)) = map (\<lambda>v. (v, v)) (map fst (linear m))"
    by (simp add: diagonal_def case_prod_beta comp_def)
  have d1: "distinct (map fst (diagonal (linear m)))"
    unfolding kd using dl by (subst distinct_map) (auto intro: inj_onI)
  have disj: "set (map fst (diagonal (linear m))) \<inter> set (map fst (quadratic m)) = {}"
  proof (rule ccontr)
    assume "\<not> ?thesis"
    then obtain k where k1: "k \<in> set (map fst (diagonal (linear m)))"
      and k2: "k \<in> set (map fst (quadratic m))" by blast
    from k1 obtain v where "k = (v, v)" unfolding kd by auto
    with k2 nd [of v v] show False by (simp add: has_key_def)
  qed
  have d2: "distinct (map fst (diagonal (linear m) @ quadratic m))"
    using d1 dq disj by simp
  then show "dict_ok (diagonal (linear m) @ quadratic m)" by (simp add: dict_ok_def)
  have "fold (\<lambda>(k, b) d. setitem d k b) (diagonal (linear m)) [] = diagonal (linear m)"
    using dict_of_items_aux [of "[]" "diagonal (linear m)"] d1 by simp
  moreover have "fold (\<lambda>(k, b) d. setitem d k b) (quadratic m) (diagonal (linear m))
      = diagonal (linear m) @ quadratic m"
    using d2 by (rule dict_of_items_aux)
  ultimately show "as_qubo conv m = Inr (diagonal (linear m) @ quadratic m, offset m)"
    using assms(2) by (simp add: as_qubo_def fold_diagonal)
qed

section \<open>Relabelling with self-maps\<close>

text \<open>
  With an empty mapping both loops of the in-place path skip every variable. A mapping
  whose entries are all self-maps passes the collision check, and the loop of lines
  352-368 elides every entry, so that both recursive calls get the empty mapping. In
  the copying path \<^verbatim>\<open>mapping.get(v, v)\<close> is \<open>v\<close>, and the constructor is called
  on the dicts of the model.
\<close>

lemma relabel_linear_adj_Nil: "relabel_linear_adj [] ks st = Inr st"
  by (induction ks) auto

lemma relabel_quadratic_Nil: "relabel_quadratic [] ks q = Inr q"
  by (induction ks) (auto simp: has_key_def)

lemma relabel_direct_Nil: "relabel_direct [] m = Inr m"
  by (simp add: relabel_direct_def relabel_linear_adj_Nil relabel_quadratic_Nil)

lemma relabel_variables_Nil: "relabel_variables [] False m = Inr m"
  by (subst relabel_variables.simps) (simp add: collision_def shared_def relabel_direct_Nil)

lemma intermediate_self_maps:
  "\<forall>p\<in>set items. fst p = snd p \<Longrightarrow> intermediate NL OL items c o2i i2n = (o2i, i2n)"
  by (induction items) auto

lemma get_default_self_maps:
  "\<forall>p\<in>set mp. fst p = snd p \<Longrightarrow> get_default mp v = v"
  by (auto simp: get_default_def split: option.splits dest!: map_of_SomeD)

lemma collision_self_maps: "\<forall>p\<in>set mp. fst p = snd p \<Longrightarrow> \<not> collision mp m"
  by (force simp: collision_def has_key_def)

lemma relabel_inplace_self_maps:
  assumes "\<forall>p\<in>set mp. fst p = snd p"
  shows "relabel_variables mp False m = Inr m"
proof (cases "shared mp = []")
  case True
  have "mp = []"
  proof (rule ccontr)
    assume "mp \<noteq> []"
    then obtain k v rest where mp: "mp = (k, v) # rest" by (cases mp) auto
    with assms have "k = v" by simp
    then have "k \<in> set (shared mp)" by (simp add: shared_def mp)
    with True show False by simp
  qed
  then show ?thesis by (simp add: relabel_variables_Nil)
next
  case False
  then show ?thesis
    using collision_self_maps [OF assms, of m] intermediate_self_maps [OF assms]
    by (subst relabel_variables.simps) (simp add: relabel_variables_Nil)
qed

lemma bqm_eq_valid:
  assumes "bqm_valid m" "bqm_valid m'" "linear m' = linear m" "quadratic m' = quadratic m"
    "offset m' = offset m" "vartype m' = vartype m"
  shows "bqm_eq m' m \<and> bqm_eq m m'"
proof -
  from assms(1,2,3,4) have "dict_ok (linear m)" "adj_ok (linear m) (quadratic m) (adj m)"
    "adj_ok (linear m) (quadratic m) (adj m')"
    by (simp_all add: bqm_valid_def)
  then have "dict_eq (linear m) (linear m)" "adj_eq (adj m) (adj m')" "adj_eq (adj m') (adj m)"
    by (auto intro: dict_eq_intro adj_ok_adj_eq)
  then show ?thesis using assms(3,5,6) by (simp add: bqm_eq_def)
qed

lemma relabel_copy_self_maps:
  assumes "bqm_valid m" "\<forall>p\<in>set mp. fst p = snd p"
  shows "\<exists>a. relabel_copy mp m = Inr (m\<lparr>adj := a\<rparr>) \<and> bqm_valid (m\<lparr>adj := a\<rparr>)"
proof -
  from assms(1) have dl: "dict_ok (linear m)" and qok: "quadratic_ok (linear m) (quadratic m)"
    by (simp_all add: bqm_valid_def)
  have g: "get_default mp v = v" for v using assms(2) by (rule get_default_self_maps)
  have "map (\<lambda>(v, b). (get_default mp v, b)) (linear m) = linear m"
    by (rule map_idI) (auto simp: g)
  then have l: "dict_of_items (map (\<lambda>(v, b). (get_default mp v, b)) (linear m)) = linear m"
    using dl by (simp add: dict_of_items_distinct dict_ok_def)
  have "map (\<lambda>((u, v), b). ((get_default mp u, get_default mp v), b)) (quadratic m) = quadratic m"
    by (rule map_idI) (auto simp: g)
  then have q: "dict_of_items (map (\<lambda>((u, v), b). ((get_default mp u, get_default mp v), b))
        (quadratic m)) = quadratic m"
    using qok by (simp add: dict_of_items_distinct dict_ok_def quadratic_ok_def)
  from constructor_succeeds [OF dl qok, of "offset m" "vartype m"] obtain a where
    c: "BinaryQuadraticModel (linear m) (tuple_keys (quadratic m)) (offset m) (Member (vartype m))
        = Inr \<lparr>linear = linear m, quadratic = quadratic m, offset = offset m,
               vartype = vartype m, adj = a\<rparr>"
    and a: "adj_ok (linear m) (quadratic m) a" by blast
  have e: "\<lparr>linear = linear m, quadratic = quadratic m, offset = offset m,
               vartype = vartype m, adj = a\<rparr> = m\<lparr>adj := a\<rparr>" by simp
  have "bqm_valid (m\<lparr>adj := a\<rparr>)" using dl qok a by (simp add: bqm_valid_def)
  then show ?thesis using c unfolding relabel_copy_def l q e by blast
qed

section \<open>One in-place renaming\<close>

text \<open>
  Auxiliary notions for the proofs about the in-place path. \<open>tr a b\<close> exchanges two
  keys and \<open>perm ps\<close> composes the exchanges of a list of pairs. A dict after
  \<^verbatim>\<open>d[new] = d[old]; del d[old]\<close>, with \<open>new\<close> a fresh key, is the old dict read
  through \<open>tr old new\<close>.
\<close>

definition tr :: "'k \<Rightarrow> 'k \<Rightarrow> 'k \<Rightarrow> 'k" where
  "tr a b x = (if x = a then b else if x = b then a else x)"

fun perm :: "('k \<times> 'k) list \<Rightarrow> 'k \<Rightarrow> 'k" where
  "perm [] x = x"
| "perm ((a, b) # ps) x = tr a b (perm ps x)"

lemma perm_other: "x \<notin> fst ` set ps \<Longrightarrow> x \<notin> snd ` set ps \<Longrightarrow> perm ps x = x"
  by (induction ps) (auto simp: tr_def)

lemma perm_fst:
  "distinct (map fst ps) \<Longrightarrow> distinct (map snd ps) \<Longrightarrow> fst ` set ps \<inter> snd ` set ps = {} \<Longrightarrow>
   (a, b) \<in> set ps \<Longrightarrow> perm ps a = b"
proof (induction ps)
  case Nil
  then show ?case by simp
next
  case (Cons p ps)
  obtain a0 b0 where p: "p = (a0, b0)" by (cases p)
  from Cons.prems have d: "distinct (map fst ps)" "distinct (map snd ps)"
    "fst ` set ps \<inter> snd ` set ps = {}" by auto
  show ?case
  proof (cases "(a, b) = (a0, b0)")
    case True
    from Cons.prems p have "a0 \<notin> fst ` set ps" "a0 \<notin> snd ` set ps" by auto
    then have "perm ps a0 = a0" by (rule perm_other)
    with True p show ?thesis by (simp add: tr_def)
  next
    case False
    with Cons.prems(4) p have in_ps: "(a, b) \<in> set ps" by auto
    from Cons.IH [OF d in_ps] have e: "perm ps a = b" .
    from in_ps have "b \<in> snd ` set ps" by force
    with Cons.prems p have "b \<noteq> b0" "b \<noteq> a0" by auto
    with e p show ?thesis by (simp add: tr_def)
  qed
qed

lemma perm_snd:
  "distinct (map fst ps) \<Longrightarrow> distinct (map snd ps) \<Longrightarrow> fst ` set ps \<inter> snd ` set ps = {} \<Longrightarrow>
   (a, b) \<in> set ps \<Longrightarrow> perm ps b = a"
proof (induction ps)
  case Nil
  then show ?case by simp
next
  case (Cons p ps)
  obtain a0 b0 where p: "p = (a0, b0)" by (cases p)
  from Cons.prems have d: "distinct (map fst ps)" "distinct (map snd ps)"
    "fst ` set ps \<inter> snd ` set ps = {}" by auto
  show ?case
  proof (cases "(a, b) = (a0, b0)")
    case True
    from Cons.prems p have "b0 \<notin> fst ` set ps" "b0 \<notin> snd ` set ps" by auto
    then have "perm ps b0 = b0" by (rule perm_other)
    with True p show ?thesis by (simp add: tr_def)
  next
    case False
    with Cons.prems(4) p have in_ps: "(a, b) \<in> set ps" by auto
    from Cons.IH [OF d in_ps] have e: "perm ps b = a" .
    from in_ps have "a \<in> fst ` set ps" by force
    with Cons.prems p have "a \<noteq> b0" "a \<noteq> a0" by auto
    with e p show ?thesis by (simp add: tr_def)
  qed
qed

lemma map_of_delete_update:
  "map_of (AList.delete old (AList.update new b d)) = ((map_of d)(new \<mapsto> b))(old := None)"
  by (simp add: delete_conv' update_conv')

lemma move_item_tr:
  assumes "dict_ok d" "map_of d old = Some b" "\<not> has_key d new"
  shows "\<exists>d'. move_item d old new = Inr d' \<and> dict_ok d' \<and> map_of d' = (\<lambda>x. map_of d (tr old new x))"
proof -
  from assms(2,3) have ne: "old \<noteq> new" by (auto simp: has_key_map_of)
  have g: "getitem d old = Inr b" using assms(2) by (simp add: getitem_Inr_iff)
  have "has_key d old" using assms(2) by (simp add: has_key_map_of)
  then have hk: "has_key (setitem d new b) old" by (simp add: has_key_setitem)
  let ?d' = "AList.delete old (setitem d new b)"
  have m: "move_item d old new = Inr ?d'" by (simp add: move_item_def g delitem_def hk)
  have ok: "dict_ok ?d'" using assms(1) by (simp add: dict_ok_def setitem_def distinct_update distinct_delete)
  have "map_of ?d' x = map_of d (tr old new x)" for x
    using assms(2,3) ne by (auto simp: setitem_def map_of_delete_update tr_def has_key_map_of)
  then have "map_of ?d' = (\<lambda>x. map_of d (tr old new x))" by (rule ext)
  with m ok show ?thesis by blast
qed

text \<open>
  The body of the first loop (lines 386--396) for one variable. \<open>nb_upd\<close> is what the
  inner loop does to the neighbour dict of one neighbour of \<open>old\<close>. \<open>state_ok\<close>
  is the part of validity that concerns \<open>linear\<close> and \<open>adj\<close> alone: the adjacency
  has the variables as keys, is symmetric and has no self-loop.
\<close>

definition nb_upd :: "label \<Rightarrow> label \<Rightarrow> (label, bias) dict \<Rightarrow> (label, bias) dict" where
  "nb_upd old new au =
     (case map_of au old of None \<Rightarrow> au | Some b \<Rightarrow> AList.delete old (setitem au new b))"

lemma relabel_neighbours_sem:
  "distinct us \<Longrightarrow> dict_ok a \<Longrightarrow> \<forall>u\<in>set us. \<exists>au. map_of a u = Some au \<and> has_key au old \<Longrightarrow>
   \<exists>a'. relabel_neighbours old new us a = Inr a' \<and> dict_ok a' \<and> fst ` set a' = fst ` set a \<and>
     (\<forall>k. map_of a' k = (if k \<in> set us then map_option (nb_upd old new) (map_of a k)
                          else map_of a k))"
proof (induction us arbitrary: a)
  case Nil
  then show ?case by simp
next
  case (Cons u us)
  from Cons.prems(3) obtain au where au: "map_of a u = Some au" and hk: "has_key au old" by auto
  from hk obtain b where b: "map_of au old = Some b" by (auto simp: has_key_map_of)
  let ?au' = "AList.delete old (setitem au new b)"
  let ?a1 = "setitem a u ?au'"
  have f: "nb_upd old new au = ?au'" by (simp add: nb_upd_def b)
  have hk': "has_key (setitem au new b) old" using hk by (simp add: has_key_setitem)
  have step: "relabel_neighbours old new (u # us) a = relabel_neighbours old new us ?a1"
    using au b hk' by (simp add: getitem_def delitem_def)
  have d1: "dict_ok ?a1" using Cons.prems(2) by (rule dict_ok_setitem)
  have u_in: "u \<in> fst ` set a" using au by (metis has_key_def has_key_map_of option.distinct(1))
  have k1: "fst ` set ?a1 = fst ` set a" using u_in by (auto simp: keys_setitem)
  have m1: "map_of ?a1 k = (if k = u then Some ?au' else map_of a k)" for k
    by (simp add: map_of_setitem)
  have p3: "\<forall>u'\<in>set us. \<exists>au. map_of ?a1 u' = Some au \<and> has_key au old"
  proof
    fix u' assume "u' \<in> set us"
    with Cons.prems(1,3) have "u' \<noteq> u" "\<exists>au. map_of a u' = Some au \<and> has_key au old" by auto
    then show "\<exists>au. map_of ?a1 u' = Some au \<and> has_key au old" by (simp add: m1)
  qed
  from Cons.prems(1) have du: "distinct us" and un: "u \<notin> set us" by simp_all
  from Cons.IH [OF du d1 p3] obtain a' where
    r: "relabel_neighbours old new us ?a1 = Inr a'" and ok: "dict_ok a'"
    and ks: "fst ` set a' = fst ` set ?a1"
    and mp: "\<forall>k. map_of a' k = (if k \<in> set us then map_option (nb_upd old new) (map_of ?a1 k)
                          else map_of ?a1 k)" by blast
  have "map_of a' k = (if k \<in> set (u # us) then map_option (nb_upd old new) (map_of a k)
                          else map_of a k)" for k
    using mp [rule_format, of k] un au f by (auto simp: m1)
  with r ok ks k1 step show ?case by auto
qed

definition state_ok :: "(label, bias) dict \<Rightarrow> (label, (label, bias) dict) dict \<Rightarrow> bool" where
  "state_ok l a =
     (dict_ok l \<and> dict_ok a \<and> (\<forall>k d. map_of a k = Some d \<longrightarrow> dict_ok d) \<and>
      fst ` set a = fst ` set l \<and> (\<forall>u v. nbr a u v = nbr a v u) \<and> (\<forall>u. nbr a u u = None))"


lemma keys_delete: "fst ` set (AList.delete k al) = fst ` set al - {k}"
  by (induction al) auto

lemma map_of_nb_upd:
  "map_of au old = Some b \<Longrightarrow>
   map_of (nb_upd old new au) = ((map_of au)(new \<mapsto> b))(old := None)"
  by (simp add: nb_upd_def setitem_def map_of_delete_update)

lemma dict_ok_nb_upd: "dict_ok au \<Longrightarrow> dict_ok (nb_upd old new au)"
  by (simp add: nb_upd_def dict_ok_def setitem_def distinct_update distinct_delete
      split: option.splits)

lemma relabel_variable_sem:
  assumes ok: "state_ok l a" and o: "has_key l old" and n: "\<not> has_key l new"
  shows "\<exists>l' a'. relabel_variable old new (l, a) = Inr (l', a') \<and> state_ok l' a' \<and>
     (\<forall>x. map_of l' x = map_of l (tr old new x)) \<and>
     (\<forall>u v. nbr a' u v = nbr a (tr old new u) (tr old new v))"
proof -
  from ok have dl: "dict_ok l" and da: "dict_ok a"
    and di: "\<And>k d. map_of a k = Some d \<Longrightarrow> dict_ok d"
    and ks: "fst ` set a = fst ` set l"
    and sym: "\<And>u v. nbr a u v = nbr a v u" and irr: "\<And>u. nbr a u u = None"
    by (simp_all add: state_ok_def)
  from o n have ne: "old \<noteq> new" by auto
  from o obtain b where b: "map_of l old = Some b" by (auto simp: has_key_map_of)
  from o ks have "has_key a old" by (simp add: has_key_def)
  then obtain d where d: "map_of a old = Some d" by (auto simp: has_key_map_of)
  from n ks have "\<not> has_key a new" by (simp add: has_key_def)
  then have an: "map_of a new = None" by (simp add: has_key_map_of)
  have N1: "nbr a new x = None" "nbr a x new = None" for x
    using an sym [of x new] by (simp_all add: nbr_def)
  have N2: "map_of d x = nbr a old x" for x by (simp add: nbr_def d)
  have dold: "\<not> has_key d old" using irr [of old] by (simp add: has_key_map_of N2)
  have dd: "dict_ok d" using d by (rule di)
  let ?a0 = "setitem a new d"
  let ?us = "map fst d"
  have us: "u \<in> set ?us \<longleftrightarrow> nbr a old u \<noteq> None" for u
    using has_key_map_of [of d u] by (simp add: has_key_def N2)
  have m0: "map_of ?a0 k = (if k = new then Some d else map_of a k)" for k
    by (simp add: map_of_setitem)
  have p3: "\<forall>u\<in>set ?us. \<exists>au. map_of ?a0 u = Some au \<and> has_key au old"
  proof
    fix u assume "u \<in> set ?us"
    then have 1: "nbr a u old \<noteq> None" using us sym by simp
    then obtain au where au: "map_of a u = Some au" by (auto simp: nbr_def split: option.splits)
    with 1 have "has_key au old" by (simp add: nbr_def has_key_map_of)
    moreover have "u \<noteq> new" using au an by auto
    ultimately show "\<exists>au. map_of ?a0 u = Some au \<and> has_key au old" using au by (simp add: m0)
  qed
  have "distinct ?us" using dd by (simp add: dict_ok_def)
  from relabel_neighbours_sem [OF this dict_ok_setitem [OF da] p3, of new] obtain a2 where
    r: "relabel_neighbours old new ?us ?a0 = Inr a2" and da2: "dict_ok a2"
    and k2: "fst ` set a2 = fst ` set ?a0"
    and m2: "\<And>k. map_of a2 k = (if k \<in> set ?us then map_option (nb_upd old new) (map_of ?a0 k)
                          else map_of ?a0 k)" by blast
  let ?l2 = "AList.delete old (setitem l new b)"
  let ?a3 = "AList.delete old a2"
  have hl: "has_key (setitem l new b) old" using o by (simp add: has_key_setitem)
  have ha: "has_key a2 old" using \<open>has_key a old\<close> by (simp add: has_key_def k2 keys_setitem)
  have res: "relabel_variable old new (l, a) = Inr (?l2, ?a3)"
    using b d dold r hl ha by (simp add: relabel_variable_def getitem_def delitem_def)
  have ml: "map_of ?l2 x = map_of l (tr old new x)" for x
    using b n ne by (auto simp: setitem_def map_of_delete_update tr_def has_key_map_of)
  have m3: "map_of ?a3 k = (if k = old then None else map_of a2 k)" for k
    by (simp add: delete_conv')
  have nb: "nbr ?a3 u v = nbr a (tr old new u) (tr old new v)" for u v
  proof -
    consider "u = old" | "u = new" | "u \<noteq> old" "u \<noteq> new" "u \<in> set ?us"
      | "u \<noteq> old" "u \<noteq> new" "u \<notin> set ?us" by blast
    then show ?thesis
    proof cases
      case 1
      then show ?thesis using ne by (simp add: nbr_def m3 tr_def an)
    next
      case 2
      have "new \<notin> set ?us" using us [of new] N1 by simp
      then have "map_of ?a3 new = Some d" using ne by (simp add: m3 m2 m0)
      then have "nbr ?a3 new v = nbr a old v" by (simp add: nbr_def N2)
      moreover have "nbr a old v = nbr a old (tr old new v)"
        using N1 irr by (simp add: tr_def)
      ultimately show ?thesis using 2 ne by (simp add: tr_def)
    next
      case 3
      from 3(3) have 1: "nbr a u old \<noteq> None" using us sym by simp
      then obtain au where au: "map_of a u = Some au" by (auto simp: nbr_def split: option.splits)
      with 1 obtain bu where bu: "map_of au old = Some bu" by (auto simp: nbr_def)
      have A: "map_of au x = nbr a u x" for x by (simp add: nbr_def au)
      have "map_of ?a3 u = Some (nb_upd old new au)" using 3 au by (simp add: m3 m2 m0)
      then have "nbr ?a3 u v = (((map_of au)(new \<mapsto> bu))(old := None)) v"
        by (simp add: nbr_def map_of_nb_upd [OF bu])
      also have "\<dots> = nbr a u (tr old new v)"
        using ne N1(2) [of u] bu by (auto simp: tr_def A)
      finally show ?thesis using 3 by (simp add: tr_def)
    next
      case 4
      from 4(3) have 1: "nbr a u old = None" using us sym by simp
      have "map_of ?a3 u = map_of a u" using 4 by (simp add: m3 m2 m0)
      then have "nbr ?a3 u v = nbr a u v" by (simp add: nbr_def)
      also have "\<dots> = nbr a u (tr old new v)" using 1 N1(2) [of u] by (simp add: tr_def)
      finally show ?thesis using 4 by (simp add: tr_def)
    qed
  qed
  have "dict_ok ?l2" using dl by (simp add: dict_ok_def setitem_def distinct_update distinct_delete)
  moreover have "dict_ok ?a3" using da2 by (simp add: dict_ok_def distinct_delete)
  moreover have "dict_ok d'" if "map_of ?a3 k = Some d'" for k d'
  proof (cases "k \<in> set ?us")
    case True
    with that obtain au where "map_of ?a0 k = Some au" "d' = nb_upd old new au"
      by (auto simp: m3 m2 split: if_splits)
    moreover from this(1) have "dict_ok au" using dd di by (auto simp: m0 split: if_splits)
    ultimately show ?thesis by (simp add: dict_ok_nb_upd)
  next
    case False
    with that have "map_of ?a0 k = Some d'" by (auto simp: m3 m2 split: if_splits)
    then show ?thesis using dd di by (auto simp: m0 split: if_splits)
  qed
  moreover have "fst ` set ?a3 = fst ` set ?l2"
    by (simp add: keys_delete k2 keys_setitem ks)
  moreover have "nbr ?a3 u v = nbr ?a3 v u" for u v by (simp add: nb sym)
  moreover have "nbr ?a3 u u = None" for u by (simp add: nb irr)
  ultimately have "state_ok ?l2 ?a3" unfolding state_ok_def by blast
  with res ml nb show ?thesis by blast
qed

section \<open>The two loops of the in-place path\<close>

text \<open>
  \<open>renames\<close> lists the exchanges the first loop performs on \<^verbatim>\<open>list(linear)\<close>, and
  \<open>qrenames\<close> those the second loop performs on \<^verbatim>\<open>list(quadratic)\<close>. When the new
  labels are fresh both loops run to their end, and the dicts they leave are the old
  ones read through the composed exchanges.
\<close>

definition renames :: "(label, label) dict \<Rightarrow> label list \<Rightarrow> (label \<times> label) list" where
  "renames mp olds = map (\<lambda>old. (old, get_default mp old)) (filter (has_key mp) olds)"

lemma renames_Cons:
  "renames mp (old # olds) =
     (case map_of mp old of None \<Rightarrow> renames mp olds | Some new \<Rightarrow> (old, new) # renames mp olds)"
  by (auto simp: renames_def has_key_map_of get_default_def split: option.splits)

lemma relabel_linear_adj_sem:
  "state_ok l a \<Longrightarrow> distinct olds \<Longrightarrow> \<forall>old\<in>set olds. has_key l old \<Longrightarrow>
   \<forall>old\<in>set olds. has_key mp old \<longrightarrow> \<not> has_key l (get_default mp old) \<Longrightarrow>
   inj_on (get_default mp) {old \<in> set olds. has_key mp old} \<Longrightarrow>
   \<exists>l' a'. relabel_linear_adj mp olds (l, a) = Inr (l', a') \<and> state_ok l' a' \<and>
     (\<forall>x. map_of l' x = map_of l (perm (renames mp olds) x)) \<and>
     (\<forall>u v. nbr a' u v = nbr a (perm (renames mp olds) u) (perm (renames mp olds) v))"
proof (induction olds arbitrary: l a)
  case Nil
  then show ?case by (simp add: renames_def)
next
  case (Cons old olds)
  from Cons.prems(2) have dis: "distinct olds" and oo: "old \<notin> set olds" by simp_all
  have inj': "inj_on (get_default mp) {old \<in> set olds. has_key mp old}"
    by (rule inj_on_subset [OF Cons.prems(5)]) auto
  show ?case
  proof (cases "map_of mp old")
    case None
    have "\<exists>l' a'. relabel_linear_adj mp olds (l, a) = Inr (l', a') \<and> state_ok l' a' \<and>
     (\<forall>x. map_of l' x = map_of l (perm (renames mp olds) x)) \<and>
     (\<forall>u v. nbr a' u v = nbr a (perm (renames mp olds) u) (perm (renames mp olds) v))"
      using Cons.prems(3,4) by (intro Cons.IH [OF Cons.prems(1) dis _ _ inj']) simp_all
    then show ?thesis using None by (simp add: renames_Cons)
  next
    case (Some new)
    then have hk: "has_key mp old" and gd: "get_default mp old = new"
      by (simp_all add: has_key_map_of get_default_def)
    from Cons.prems(3) have o: "has_key l old" by simp
    from Cons.prems(4) hk gd have n: "\<not> has_key l new" by auto
    from relabel_variable_sem [OF Cons.prems(1) o n] obtain l1 a1 where
      r1: "relabel_variable old new (l, a) = Inr (l1, a1)" and ok1: "state_ok l1 a1"
      and ml1: "\<And>x. map_of l1 x = map_of l (tr old new x)"
      and nb1: "\<And>u v. nbr a1 u v = nbr a (tr old new u) (tr old new v)" by blast
    have p3: "\<forall>o'\<in>set olds. has_key l1 o'"
    proof
      fix o' assume o': "o' \<in> set olds"
      with Cons.prems(3) have h: "has_key l o'" by simp
      with n oo o' have "o' \<noteq> old" "o' \<noteq> new" by auto
      then show "has_key l1 o'" using h by (simp add: has_key_map_of ml1 tr_def)
    qed
    have p4: "\<forall>o'\<in>set olds. has_key mp o' \<longrightarrow> \<not> has_key l1 (get_default mp o')"
    proof (intro ballI impI)
      fix o' assume o': "o' \<in> set olds" and h: "has_key mp o'"
      with Cons.prems(4) have f: "\<not> has_key l (get_default mp o')" by simp
      have "get_default mp o' \<noteq> new"
      proof
        assume "get_default mp o' = new"
        with gd have "get_default mp o' = get_default mp old" by simp
        with Cons.prems(5) o' h hk have "o' = old" by (auto dest: inj_onD)
        with oo o' show False by simp
      qed
      then show "\<not> has_key l1 (get_default mp o')" using f n
        by (simp add: has_key_map_of ml1 tr_def)
    qed
    from Cons.IH [OF ok1 dis p3 p4 inj'] obtain l' a' where
      r: "relabel_linear_adj mp olds (l1, a1) = Inr (l', a')" and ok: "state_ok l' a'"
      and ml: "\<And>x. map_of l' x = map_of l1 (perm (renames mp olds) x)"
      and nb: "\<And>u v. nbr a' u v = nbr a1 (perm (renames mp olds) u) (perm (renames mp olds) v)"
      by blast
    have "relabel_linear_adj mp (old # olds) (l, a) = Inr (l', a')" using Some r1 r by simp
    moreover have "map_of l' x = map_of l (perm (renames mp (old # olds)) x)" for x
      by (simp add: renames_Cons Some ml ml1)
    moreover have "nbr a' u v = nbr a (perm (renames mp (old # olds)) u)
        (perm (renames mp (old # olds)) v)" for u v
      by (simp add: renames_Cons Some nb nb1)
    ultimately show ?thesis using ok by blast
  qed
qed


definition moved :: "(label, label) dict \<Rightarrow> label \<times> label \<Rightarrow> bool" where
  "moved mp k = (has_key mp (fst k) \<or> has_key mp (snd k))"

definition rq :: "(label, label) dict \<Rightarrow> label \<times> label \<Rightarrow> label \<times> label" where
  "rq mp k = (get_default mp (fst k), get_default mp (snd k))"

definition qrenames ::
  "(label, label) dict \<Rightarrow> (label \<times> label) list \<Rightarrow> ((label \<times> label) \<times> (label \<times> label)) list" where
  "qrenames mp ks = map (\<lambda>k. (k, rq mp k)) (filter (moved mp) ks)"

lemma relabel_quadratic_sem:
  "dict_ok q \<Longrightarrow> distinct ks \<Longrightarrow> \<forall>k\<in>set ks. has_key q k \<Longrightarrow>
   \<forall>k\<in>set ks. \<not> has_key q (snd k, fst k) \<Longrightarrow>
   \<forall>k\<in>set ks. moved mp k \<longrightarrow> \<not> has_key q (rq mp k) \<Longrightarrow>
   \<forall>k\<in>set ks. \<forall>k2\<in>set ks. moved mp k \<longrightarrow> rq mp k \<noteq> (snd k2, fst k2) \<Longrightarrow>
   inj_on (rq mp) {k \<in> set ks. moved mp k} \<Longrightarrow>
   \<exists>q'. relabel_quadratic mp ks q = Inr q' \<and> dict_ok q' \<and>
     (\<forall>x. map_of q' x = map_of q (perm (qrenames mp ks) x))"
proof (induction ks arbitrary: q)
  case Nil
  then show ?case by (simp add: qrenames_def)
next
  case (Cons k ks)
  obtain u v where k: "k = (u, v)" by (cases k)
  from Cons.prems(2) have dis: "distinct ks" and kk: "k \<notin> set ks" by simp_all
  have inj': "inj_on (rq mp) {k \<in> set ks. moved mp k}"
    by (rule inj_on_subset [OF Cons.prems(7)]) auto
  have p6: "\<forall>k\<in>set ks. \<forall>k2\<in>set ks. moved mp k \<longrightarrow> rq mp k \<noteq> (snd k2, fst k2)"
    using Cons.prems(6) by simp
  show ?case
  proof (cases "moved mp k")
    case False
    have "\<exists>q'. relabel_quadratic mp ks q = Inr q' \<and> dict_ok q' \<and>
     (\<forall>x. map_of q' x = map_of q (perm (qrenames mp ks) x))"
      using Cons.prems(3,4,5) by (intro Cons.IH [OF Cons.prems(1) dis _ _ _ p6 inj']) simp_all
    then show ?thesis using False by (simp add: k moved_def qrenames_def)
  next
    case True
    let ?k' = "rq mp k"
    from Cons.prems(3) have hk: "has_key q k" by simp
    then obtain b where b: "map_of q k = Some b" by (auto simp: has_key_map_of)
    from Cons.prems(4) k have nrev: "\<not> has_key q (v, u)" by simp
    from Cons.prems(5) True have nk': "\<not> has_key q ?k'" by simp
    from move_item_tr [OF Cons.prems(1) b nk'] obtain q1 where
      mv: "move_item q k ?k' = Inr q1" and d1: "dict_ok q1"
      and m1: "map_of q1 = (\<lambda>x. map_of q (tr k ?k' x))" by blast
    have step: "relabel_quadratic mp (k # ks) q = relabel_quadratic mp ks q1"
      using True nrev hk mv by (auto simp: k moved_def rq_def Let_def)
    have p3: "\<forall>k2\<in>set ks. has_key q1 k2"
    proof
      fix k2 assume k2: "k2 \<in> set ks"
      with Cons.prems(3) have h: "has_key q k2" by simp
      with nk' kk k2 have "k2 \<noteq> k" "k2 \<noteq> ?k'" by auto
      then show "has_key q1 k2" using h by (simp add: has_key_map_of m1 tr_def)
    qed
    have p4: "\<forall>k2\<in>set ks. \<not> has_key q1 (snd k2, fst k2)"
    proof
      fix k2 assume k2: "k2 \<in> set ks"
      with Cons.prems(4) have f: "\<not> has_key q (snd k2, fst k2)" by simp
      have "(snd k2, fst k2) \<noteq> ?k'" using Cons.prems(6) True k2 by auto
      moreover have "(snd k2, fst k2) \<noteq> k"
      proof
        assume "(snd k2, fst k2) = k"
        then have "k2 = (v, u)" using k by auto
        with Cons.prems(3) k2 nrev show False by auto
      qed
      ultimately show "\<not> has_key q1 (snd k2, fst k2)" using f
        by (simp add: has_key_map_of m1 tr_def)
    qed
    have p5: "\<forall>k2\<in>set ks. moved mp k2 \<longrightarrow> \<not> has_key q1 (rq mp k2)"
    proof (intro ballI impI)
      fix k2 assume k2: "k2 \<in> set ks" and mv2: "moved mp k2"
      with Cons.prems(5) have f: "\<not> has_key q (rq mp k2)" by simp
      have "rq mp k2 \<noteq> ?k'"
      proof
        assume "rq mp k2 = ?k'"
        with Cons.prems(7) k2 mv2 True have "k2 = k" by (auto dest: inj_onD)
        with kk k2 show False by simp
      qed
      then show "\<not> has_key q1 (rq mp k2)" using f nk'
        by (simp add: has_key_map_of m1 tr_def)
    qed
    from Cons.IH [OF d1 dis p3 p4 p5 p6 inj'] obtain q' where
      r: "relabel_quadratic mp ks q1 = Inr q'" and ok: "dict_ok q'"
      and mq: "\<And>x. map_of q' x = map_of q1 (perm (qrenames mp ks) x)" by blast
    have "map_of q' x = map_of q (perm (qrenames mp (k # ks)) x)" for x
      using True by (simp add: qrenames_def mq m1)
    with step r ok show ?thesis by auto
  qed
qed

section \<open>Claims\<close>

text \<open>
  C6. For a valid model and a sample that assigns a value to every variable of
  \<open>linear\<close>, \<open>energy\<close> returns the offset plus the sum over the variables of
  \<open>linear[v] * sample[v]\<close> plus the sum over the quadratic keys of
  \<open>quadratic[(u, v)] * sample[u] * sample[v]\<close>; if the sample lacks a variable that
  \<open>linear\<close> or \<open>quadratic\<close> refers to, \<open>energy\<close> fails with a key error.
\<close>

theorem energy_value_and_missing_key:
  assumes "bqm_valid m"
  shows "((\<forall>v\<in>fst ` set (linear m). has_key sample v) \<longrightarrow>
          energy m sample =
            Inr (offset m
                 + (\<Sum>v\<in>fst ` set (linear m). the (map_of (linear m) v) * the (map_of sample v))
                 + (\<Sum>(u, v)\<in>fst ` set (quadratic m).
                      the (map_of (quadratic m) (u, v)) * the (map_of sample u)
                      * the (map_of sample v))))
       \<and> ((\<exists>v. (has_key (linear m) v
                 \<or> (\<exists>u. has_key (quadratic m) (u, v) \<or> has_key (quadratic m) (v, u)))
                \<and> \<not> has_key sample v) \<longrightarrow>
          energy m sample = Inl KeyError)"
proof (intro conjI impI)
  assume all: "\<forall>v\<in>fst ` set (linear m). has_key sample v"
  from assms have "dict_ok (linear m)" "dict_ok (quadratic m)"
    and q: "\<forall>u v. has_key (quadratic m) (u, v) \<longrightarrow> has_key (linear m) u \<and> has_key (linear m) v"
    by (simp_all add: bqm_valid_def quadratic_ok_def)
  moreover
  have "has_key sample u \<and> has_key sample v" if "(u, v) \<in> fst ` set (quadratic m)" for u v
  proof -
    from that have "has_key (quadratic m) (u, v)" by (simp add: has_key_def)
    with q have "has_key (linear m) u" "has_key (linear m) v" by blast+
    then have "u \<in> fst ` set (linear m)" "v \<in> fst ` set (linear m)"
      by (simp_all add: has_key_def)
    with all show ?thesis by blast
  qed
  then have "\<forall>(u, v)\<in>fst ` set (quadratic m). has_key sample u \<and> has_key sample v"
    by blast
  ultimately show "energy m sample =
            Inr (offset m
                 + (\<Sum>v\<in>fst ` set (linear m). the (map_of (linear m) v) * the (map_of sample v))
                 + (\<Sum>(u, v)\<in>fst ` set (quadratic m).
                      the (map_of (quadratic m) (u, v)) * the (map_of sample u)
                      * the (map_of sample v)))"
    using all by (intro energy_complete)
next
  assume "\<exists>v. (has_key (linear m) v
                 \<or> (\<exists>u. has_key (quadratic m) (u, v) \<or> has_key (quadratic m) (v, u)))
                \<and> \<not> has_key sample v"
  then show "energy m sample = Inl KeyError" by (rule energy_missing)
qed

theorem energy_value_and_missing_key_witness:
  "bqm_valid two_variable_model
   \<and> linear two_variable_model = [(IntL 0, 1), (IntL 1, 2)]
   \<and> has_key [(IntL 0, 1 :: bias), (IntL 1, - 1)] (IntL 0)
   \<and> has_key [(IntL 0, 1 :: bias), (IntL 1, - 1)] (IntL 1)
   \<and> energy two_variable_model [(IntL 0, 1), (IntL 1, - 1)] = Inr (- (7 / 2))
   \<and> offset two_variable_model
       + (\<Sum>v\<in>fst ` set (linear two_variable_model).
            the (map_of (linear two_variable_model) v)
            * the (map_of [(IntL 0, 1), (IntL 1, - 1)] v))
       + (\<Sum>(u, v)\<in>fst ` set (quadratic two_variable_model).
            the (map_of (quadratic two_variable_model) (u, v))
            * the (map_of [(IntL 0, 1), (IntL 1, - 1)] u)
            * the (map_of [(IntL 0, 1), (IntL 1, - 1)] v)) = - (7 / 2)
   \<and> \<not> has_key [(IntL 0, 1 :: bias)] (IntL 1)
   \<and> energy two_variable_model [(IntL 0, 1)] = Inl KeyError"
proof -
  have w1: "\<forall>v\<in>fst ` set (linear two_variable_model). has_key [(IntL 0, 1 :: bias), (IntL 1, - 1)] v"
    by (simp add: two_variable_model_def has_key_def)
  have w2: "\<exists>v. (has_key (linear two_variable_model) v
                 \<or> (\<exists>u. has_key (quadratic two_variable_model) (u, v)
                        \<or> has_key (quadratic two_variable_model) (v, u)))
                \<and> \<not> has_key [(IntL 0, 1 :: bias)] v"
    by (rule exI [of _ "IntL 1"]) (simp add: two_variable_model_def has_key_def)
  have w4: "energy two_variable_model [(IntL 0, 1), (IntL 1, - 1)] = Inr (- (7 / 2))"
    by (simp add: energy_def two_variable_model_def linear_term_def quadratic_term_def
        getitem_def)
  have w0: "linear two_variable_model = [(IntL 0, 1), (IntL 1, 2)]"
    "has_key [(IntL 0, 1 :: bias), (IntL 1, - 1)] (IntL 0)"
    "has_key [(IntL 0, 1 :: bias), (IntL 1, - 1)] (IntL 1)"
    by (simp_all add: two_variable_model_def has_key_def)
  note th = energy_value_and_missing_key [OF two_variable_model_valid]
  have 3: "\<not> has_key [(IntL 0, 1 :: bias)] (IntL 1)" by (simp add: has_key_def)
  from th [of "[(IntL 0, 1), (IntL 1, - 1)]"] w1 w4
  have 4: "offset two_variable_model
       + (\<Sum>v\<in>fst ` set (linear two_variable_model).
            the (map_of (linear two_variable_model) v)
            * the (map_of [(IntL 0, 1), (IntL 1, - 1)] v))
       + (\<Sum>(u, v)\<in>fst ` set (quadratic two_variable_model).
            the (map_of (quadratic two_variable_model) (u, v))
            * the (map_of [(IntL 0, 1), (IntL 1, - 1)] u)
            * the (map_of [(IntL 0, 1), (IntL 1, - 1)] v)) = - (7 / 2)"
    by (elim conjE) (drule (1) mp, simp only: sum.inject)
  from th [of "[(IntL 0, 1)]"] w2
  have w3: "energy two_variable_model [(IntL 0, 1)] = Inl KeyError"
    by (elim conjE) (erule mp)
  from two_variable_model_valid w0 w4 4 3 w3 show ?thesis by blast
qed

text \<open>
  C7. Construction raises the documented kind of error for every invalid input: a
  quadratic key that is not a 2-tuple of variables, a self-loop key and a pair present in
  both orientations raise a value error, an unknown vartype token raises a type error.
  The source turns only a \<^verbatim>\<open>ValueError\<close> of the unpacking into the value error of
  line 149; a key that cannot be unpacked at all, the integer \<open>5\<close>, raises a
  \<^verbatim>\<open>TypeError\<close> that passes through the \<^verbatim>\<open>except ValueError\<close> clause.
\<close>

theorem scalar_quadratic_key_raises_type_error:
  "BinaryQuadraticModel [(IntL 0, 0), (IntL 1, 0)] [(Scalar 5, 1 / 2)] 0 (Member BINARY)
     = Inl TypeError"
  by (simp add: BinaryQuadraticModel_def normalize_vartype_def check_quadratic_def)

text \<open>
  C9. For a valid input and its fully edge-reversed quadratic dict (every \<open>(u, v)\<close>
  replaced by \<open>(v, u)\<close>), the two constructed models have identical adjacency
  structures and compare equal under \<^verbatim>\<open>==\<close>.
\<close>

theorem reversed_quadratic_same_model:
  assumes "BinaryQuadraticModel l (tuple_keys q) off tok = Inr m" "dict_ok l"
  shows "\<exists>m'. BinaryQuadraticModel l (tuple_keys (reversed_quadratic q)) off tok = Inr m'
            \<and> adj m' = adj m \<and> bqm_eq m' m \<and> bqm_eq m m'"
proof -
  from assms(1) obtain vt a where vt: "normalize_vartype tok = Inr vt"
    and inl: "\<forall>u v. has_key q (u, v) \<longrightarrow> has_key l u \<and> has_key l v"
    and a: "build_adj (empty_adj l) q = Inr a"
    and m: "m = \<lparr>linear = l, quadratic = q, offset = off, vartype = vt, adj = a\<rparr>"
    unfolding constructor_tuple_keys_Inr_iff by blast
  from constructor_valid [OF assms] have valid: "bqm_valid m" by simp
  then have "dict_ok q" by (simp add: m bqm_valid_def quadratic_ok_def)
  then have r: "reversed_quadratic q = swap_keys q" by (rule reversed_quadratic_swap_keys)
  have "has_key (empty_adj l) x \<longleftrightarrow> has_key l x" for x
    using empty_adj_ok [OF assms(2)] by (simp add: adj_ok_def has_key_def)
  with inl have "\<forall>u v. has_key q (u, v) \<longrightarrow> has_key (empty_adj l) u \<and> has_key (empty_adj l) v"
    by simp
  then have "build_adj (empty_adj l) (swap_keys q) = Inr a"
    using a by (simp add: build_adj_swap_keys)
  moreover from inl have "\<forall>u v. has_key (swap_keys q) (u, v) \<longrightarrow> has_key l u \<and> has_key l v"
    by (simp add: has_key_swap_keys)
  ultimately have c: "BinaryQuadraticModel l (tuple_keys (reversed_quadratic q)) off tok
      = Inr \<lparr>linear = l, quadratic = swap_keys q, offset = off, vartype = vt, adj = a\<rparr>"
    unfolding r constructor_tuple_keys_Inr_iff using vt by blast
  let ?m' = "\<lparr>linear = l, quadratic = swap_keys q, offset = off, vartype = vt, adj = a\<rparr>"
  have "bqm_eq ?m' m \<and> bqm_eq m ?m'"
    using valid by (rule bqm_eq_same_parts) (simp_all add: m)
  then show ?thesis using c by (auto simp: m)
qed

theorem reversed_quadratic_same_model_witness:
  "dict_ok [(IntL 0, 1 :: bias), (IntL 1, 2)]
   \<and> BinaryQuadraticModel [(IntL 0, 1), (IntL 1, 2)] (tuple_keys [((IntL 0, IntL 1), 3)])
        (1 / 2) (Member SPIN) = Inr two_variable_model
   \<and> (\<exists>m'. BinaryQuadraticModel [(IntL 0, 1), (IntL 1, 2)]
               (tuple_keys (reversed_quadratic [((IntL 0, IntL 1), 3)])) (1 / 2) (Member SPIN)
             = Inr m'
           \<and> adj m' = adj two_variable_model \<and> bqm_eq m' two_variable_model
           \<and> bqm_eq two_variable_model m')"
proof -
  have d: "dict_ok [(IntL 0, 1 :: bias), (IntL 1, 2)]" by (simp add: dict_ok_def)
  from reversed_quadratic_same_model [OF two_variable_model_constructed d]
    two_variable_model_constructed d
  show ?thesis by blast
qed

text \<open>
  C8. For a valid BINARY model \<open>as_qubo\<close> (whatever the spin-to-binary conversion,
  which this branch does not call) returns one mapping with exactly one
  diagonal entry \<open>(v, v)\<close> holding \<open>linear[v]\<close> for every variable and one entry
  \<open>(u, v)\<close> holding the bias of every quadratic pair, and the offset unchanged. On
  the model with linear \<open>{0: 0, 1: 0}\<close>, quadratic \<open>{(0, 1): 1}\<close> and offset 0 it
  yields \<open>{(0, 0): 0, (1, 1): 0, (0, 1): 1}\<close> and 0 (the witness).
\<close>

theorem as_qubo_binary:
  assumes "bqm_valid m" "vartype m = BINARY"
  shows "\<exists>Q. as_qubo conv m = Inr (Q, offset m) \<and> dict_ok Q
           \<and> length Q = length (linear m) + length (quadratic m)
           \<and> (\<forall>u v. map_of Q (u, v) =
                 (if u = v then map_of (linear m) u else map_of (quadratic m) (u, v)))"
proof -
  let ?Q = "diagonal (linear m) @ quadratic m"
  from assms(1) have nd: "\<And>u. \<not> has_key (quadratic m) (u, u)"
    by (auto simp: bqm_valid_def quadratic_ok_def)
  have "map_of ?Q (u, v) = (if u = v then map_of (linear m) u else map_of (quadratic m) (u, v))"
    for u v
  proof (cases "u = v")
    case True
    then have "map_of (quadratic m) (u, v) = None" using nd [of u] by (simp add: has_key_map_of)
    then show ?thesis using True by (simp add: map_add_def map_of_diagonal split: option.splits)
  next
    case False
    then show ?thesis by (simp add: map_add_def map_of_diagonal split: option.splits)
  qed
  moreover have "length ?Q = length (linear m) + length (quadratic m)"
    by (simp add: diagonal_def)
  ultimately show ?thesis using as_qubo_binary_list [OF assms] by blast
qed

theorem as_qubo_binary_witness:
  "bqm_valid qubo_example_model \<and> vartype qubo_example_model = BINARY
   \<and> (\<forall>conv. as_qubo conv qubo_example_model
         = Inr ([((IntL 0, IntL 0), 0), ((IntL 1, IntL 1), 0), ((IntL 0, IntL 1), 1)], 0))
   \<and> (\<forall>conv. \<exists>Q. as_qubo conv qubo_example_model = Inr (Q, offset qubo_example_model)
           \<and> dict_ok Q
           \<and> length Q = length (linear qubo_example_model) + length (quadratic qubo_example_model)
           \<and> (\<forall>u v. map_of Q (u, v) =
                 (if u = v then map_of (linear qubo_example_model) u
                  else map_of (quadratic qubo_example_model) (u, v))))"
proof -
  have b: "vartype qubo_example_model = BINARY" by (simp add: qubo_example_model_def)
  have e: "as_qubo conv qubo_example_model
       = Inr ([((IntL 0, IntL 0), 0), ((IntL 1, IntL 1), 0), ((IntL 0, IntL 1), 1)], 0)" for conv
    by (simp add: as_qubo_def qubo_example_model_def setitem_def)
  from as_qubo_binary [OF qubo_example_model_valid b] qubo_example_model_valid b e
  show ?thesis by blast
qed

text \<open>
  C2. For every valid model and every mapping that passes the collision check,
  \<open>relabel_variables\<close> with \<^verbatim>\<open>copy=False\<close> and with \<^verbatim>\<open>copy=True\<close> yield equal
  models, and when one raises the other raises the same kind of error, also for mappings
  whose old and new labels overlap and for models with further, unmapped variables.
  The source picks its intermediate labels from a counter that starts at twice the number
  of variables and skips the old and the new labels only (lines 348 and 361--363), not the
  unmapped variables of the model. On the model with the variables 0, 1 and 6, built by
  the constructor, and the mapping that swaps 0 and 1, the first intermediate label is 6:
  the copying call succeeds and the in-place call raises \<^verbatim>\<open>ValueError\<close> in the
  collision check of its first recursive call.
\<close>

theorem relabel_inplace_temporary_label_collides:
  "BinaryQuadraticModel [(IntL 0, 1), (IntL 1, 2), (IntL 6, 3)]
     (tuple_keys [((IntL 0, IntL 1), 5)]) 0 (Member SPIN) = Inr six_model
   \<and> relabel_variables swap_mapping True six_model =
       Inr \<lparr>linear = [(IntL 1, 1), (IntL 0, 2), (IntL 6, 3)],
            quadratic = [((IntL 1, IntL 0), 5)], offset = 0, vartype = SPIN,
            adj = [(IntL 1, [(IntL 0, 5)]), (IntL 0, [(IntL 1, 5)]), (IntL 6, [])]\<rparr>
   \<and> relabel_variables swap_mapping False six_model = Inl ValueError"
  by code_simp

text \<open>
  C4. After every successful public operation that yields or mutates a model, the
  adjacency is exactly the symmetric expansion of the quadratic dict and every variable
  of \<open>linear\<close> has an adjacency entry. The in-place relabelling with a mapping that
  sends the variables 0 and 1 to the same new label \<open>a\<close> succeeds on the model with
  variables 0, 1, 2 and the one interaction \<open>(0, 2)\<close>, and leaves the quadratic entry
  \<open>(a, 2)\<close> without the adjacency entry \<open>adj[a][2]\<close>: line 390 overwrites
  \<open>adj[a]\<close> with the empty neighbour dict of 1. The copying call on the same input
  builds the adjacency with both entries.
\<close>

theorem relabel_inplace_merge_breaks_adjacency:
  "BinaryQuadraticModel [(IntL 0, 1), (IntL 1, 2), (IntL 2, 3)]
     (tuple_keys [((IntL 0, IntL 2), 5)]) 0 (Member SPIN) = Inr merge_model
   \<and> relabel_variables merge_mapping False merge_model =
       Inr \<lparr>linear = [(IntL 2, 3), (StrL ''a'', 2)],
            quadratic = [((StrL ''a'', IntL 2), 5)], offset = 0, vartype = SPIN,
            adj = [(IntL 2, [(StrL ''a'', 5)]), (StrL ''a'', [])]\<rparr>
   \<and> nbr [(IntL 2, [(StrL ''a'', 5 :: bias)]), (StrL ''a'', [])] (StrL ''a'') (IntL 2) = None
   \<and> sym_lookup [((StrL ''a'', IntL 2), 5 :: bias)] (StrL ''a'') (IntL 2) = Some 5
   \<and> relabel_variables merge_mapping True merge_model =
       Inr \<lparr>linear = [(StrL ''a'', 2), (IntL 2, 3)],
            quadratic = [((StrL ''a'', IntL 2), 5)], offset = 0, vartype = SPIN,
            adj = [(StrL ''a'', [(IntL 2, 5)]), (IntL 2, [(StrL ''a'', 5)])]\<rparr>"
  by code_simp

text \<open>
  C10. For every valid model and every mapping all of whose entries are self-maps,
  \<^verbatim>\<open>relabel_variables(mapping, copy)\<close> succeeds under both values of \<open>copy\<close>: the
  in-place call returns the model unchanged, and the copying call returns a model that
  is \<^verbatim>\<open>==\<close> to the original, in both directions. The keys of the mapping need not
  be variables of the model.
\<close>

theorem relabel_self_maps_identity:
  assumes "bqm_valid m" "\<forall>p\<in>set mp. fst p = snd p"
  shows "relabel_variables mp False m = Inr m
       \<and> (\<exists>m'. relabel_variables mp True m = Inr m' \<and> bqm_eq m' m \<and> bqm_eq m m')"
proof
  show "relabel_variables mp False m = Inr m" using assms(2) by (rule relabel_inplace_self_maps)
  from relabel_copy_self_maps [OF assms] obtain a where
    c: "relabel_copy mp m = Inr (m\<lparr>adj := a\<rparr>)" and v: "bqm_valid (m\<lparr>adj := a\<rparr>)" by blast
  have "relabel_variables mp True m = Inr (m\<lparr>adj := a\<rparr>)"
    using collision_self_maps [OF assms(2), of m] c
    by (subst relabel_variables.simps) simp
  moreover have "bqm_eq (m\<lparr>adj := a\<rparr>) m \<and> bqm_eq m (m\<lparr>adj := a\<rparr>)"
    using assms(1) v by (rule bqm_eq_valid) simp_all
  ultimately show "\<exists>m'. relabel_variables mp True m = Inr m' \<and> bqm_eq m' m \<and> bqm_eq m m'"
    by blast
qed

theorem relabel_self_maps_identity_witness:
  "bqm_valid two_variable_model
   \<and> relabel_variables [(IntL 0, IntL 0), (IntL 1, IntL 1)] False two_variable_model
       = Inr two_variable_model
   \<and> (\<exists>m'. relabel_variables [(IntL 0, IntL 0), (IntL 1, IntL 1)] True two_variable_model
            = Inr m'
          \<and> bqm_eq m' two_variable_model \<and> bqm_eq two_variable_model m')"
proof -
  have s: "\<forall>p\<in>set [(IntL 0, IntL 0), (IntL 1, IntL 1)]. fst p = snd p" by simp
  from relabel_self_maps_identity [OF two_variable_model_valid s] two_variable_model_valid
  show ?thesis by blast
qed

end
